theory Spec2Isabelle
  imports Complex_Main
begin

section \<open>Machine integers, errors and loops\<close>

text \<open>
  The sources (\<^verbatim>\<open>Code/math/Linear.cuH\<close> and the header \<^verbatim>\<open>Syntari.cuH\<close>) keep every
  dimension in a C++ \<^verbatim>\<open>int\<close> (32 bits, two's complement). Sizes of \<^verbatim>\<open>std::vector\<close>s and the
  CUDA thread coordinates are unsigned; the conversion to \<^verbatim>\<open>int\<close> keeps the low 32 bits.
  Signed overflow of a product is undefined behaviour and is a branch of the model.

  Matrix elements are \<^verbatim>\<open>float\<close>s. The model is polymorphic in the element type: code that
  only adds (the bias stage) asks for nothing but a \<open>+\<close>, so what is proved of it holds for
  any addition, the rounding one included; code that multiplies and sums is read over a
  semiring, where arithmetic is exact.
\<close>

definition to_int32 :: "nat \<Rightarrow> int" where
  "to_int32 n = (let m = int n mod 2 ^ 32 in if m < 2 ^ 31 then m else m - 2 ^ 32)"

definition int32_ok :: "int \<Rightarrow> bool" where
  "int32_ok v \<longleftrightarrow> - (2 ^ 31) \<le> v \<and> v < 2 ^ 31"

definition to_size :: "int \<Rightarrow> nat" where
  "to_size v = nat (v mod 2 ^ 64)"

text \<open>
  The places where the source indexes without a check. An access outside the object is
  undefined behaviour in C++ and on the device; the model returns it as a value.
  \<open>InvalidDimension\<close> is the error kind the specification names; it is part of the type so
  that claims about it can be stated.
\<close>

datatype site =
    Output0          \<comment> \<open>\<^verbatim>\<open>output[0]\<close> in \<^verbatim>\<open>linear\<close>\<close>
  | Input0           \<comment> \<open>\<^verbatim>\<open>input[0]\<close> in \<^verbatim>\<open>linearCUBLAS\<close>\<close>
  | HostOutput       \<comment> \<open>\<^verbatim>\<open>output[i][j]\<close> in the bias loop of \<^verbatim>\<open>linear\<close>\<close>
  | HostBias         \<comment> \<open>\<^verbatim>\<open>bias[j]\<close> in the bias loop of \<^verbatim>\<open>linear\<close>\<close>
  | KernelOutput     \<comment> \<open>\<^verbatim>\<open>output[idx]\<close> in \<^verbatim>\<open>addBiasEfficient\<close>\<close>
  | KernelBias       \<comment> \<open>\<^verbatim>\<open>bias[col]\<close> in \<^verbatim>\<open>addBiasEfficient\<close>\<close>
  | MatmulOperand    \<comment> \<open>operands of \<^verbatim>\<open>matmul\<close> whose shapes do not fit\<close>
  | HostCopy         \<comment> \<open>host range read by \<^verbatim>\<open>cudaMemcpyAsync\<close>\<close>
  | DevicePointer    \<comment> \<open>device range touched by a queued operation\<close>
  | Reassemble       \<comment> \<open>the range of \<^verbatim>\<open>flatOutput\<close> copied into row \<open>i\<close>\<close>
  | RowMaximum       \<comment> \<open>the maximum of a row without entries in \<^verbatim>\<open>softmax\<close>\<close>

datatype error =
    InvalidDimension   \<comment> \<open>the specification's error kind; nothing in the source raises it\<close>
  | OutOfBounds site   \<comment> \<open>undefined behaviour: a read or write outside the object\<close>
  | SignedOverflow     \<comment> \<open>undefined behaviour: an \<^verbatim>\<open>int\<close> result that does not fit\<close>
  | LengthError        \<comment> \<open>\<^verbatim>\<open>std::length_error\<close>, thrown by a \<^verbatim>\<open>std::vector\<close>\<close>

text \<open>
  A \<^verbatim>\<open>std::vector\<close> that is asked for more than \<^verbatim>\<open>max_size()\<close> elements throws
  \<^verbatim>\<open>std::length_error\<close>. With the 64-bit \<^verbatim>\<open>size_t\<close> of a CUDA host, \<^verbatim>\<open>max_size()\<close> is
  \<^verbatim>\<open>PTRDIFF_MAX\<close> divided by the size of an element: 4 bytes for a \<^verbatim>\<open>float\<close>, 24 for a
  \<^verbatim>\<open>std::vector<float>\<close>. The source catches no exception, so the exception leaves the
  function that raised it. Running out of memory (\<^verbatim>\<open>std::bad_alloc\<close>) depends on the machine
  and is not modelled.
\<close>

definition vector_max_size :: "nat \<Rightarrow> nat" where
  "vector_max_size element_bytes = (2 ^ 63 - 1) div element_bytes"

text \<open>\<^verbatim>\<open>for (int i = 0; i < n; ++i) body\<close>, stopping at the first step that fails.\<close>

primrec forM :: "'i list \<Rightarrow> ('i \<Rightarrow> 's \<Rightarrow> error + 's) \<Rightarrow> 's \<Rightarrow> error + 's" where
  "forM [] body s = Inr s"
| "forM (i # is) body s = (case body i s of Inl e \<Rightarrow> Inl e | Inr s' \<Rightarrow> forM is body s')"

definition int_range :: "int \<Rightarrow> nat list" where
  "int_range n = [0 ..< nat n]"

section \<open>The bias-fusion stage\<close>

subsection \<open>On the host: the loop of \<^verbatim>\<open>linear\<close>\<close>

text \<open>
  \<^verbatim>\<open>for (int i = 0; i < batch_size; ++i)
    for (int j = 0; j < output_dim; ++j)
        output[i][j] += bias[j];\<close>
  The outer loop is an OpenMP \<^verbatim>\<open>parallel for\<close>; iteration \<open>i\<close> reads and writes row \<open>i\<close>
  only, so the rows are taken here in a given order \<open>rows\<close>, which the source leaves open.
\<close>

definition add_bias_elem :: "('a::plus) list \<Rightarrow> nat \<Rightarrow> nat \<Rightarrow> 'a list list \<Rightarrow> error + 'a list list" where
  "add_bias_elem bias i j output =
     (if length output \<le> i \<or> length (output ! i) \<le> j then Inl (OutOfBounds HostOutput)
      else if length bias \<le> j then Inl (OutOfBounds HostBias)
      else Inr (output[i := (output ! i)[j := output ! i ! j + bias ! j]]))"

definition add_bias_row :: "('a::plus) list \<Rightarrow> int \<Rightarrow> nat \<Rightarrow> 'a list list \<Rightarrow> error + 'a list list" where
  "add_bias_row bias output_dim i output = forM (int_range output_dim) (add_bias_elem bias i) output"

definition add_bias_rows :: "nat list \<Rightarrow> ('a::plus) list \<Rightarrow> int \<Rightarrow> 'a list list \<Rightarrow> error + 'a list list" where
  "add_bias_rows rows bias output_dim output = forM rows (add_bias_row bias output_dim) output"

definition add_bias_host :: "('a::plus) list \<Rightarrow> int \<Rightarrow> int \<Rightarrow> 'a list list \<Rightarrow> error + 'a list list" where
  "add_bias_host bias batch_size output_dim output =
     add_bias_rows (int_range batch_size) bias output_dim output"

subsection \<open>On the device: the kernel \<^verbatim>\<open>addBiasEfficient\<close>\<close>

record dim3 =
  dim_x :: nat
  dim_y :: nat
  dim_z :: nat

text \<open>
  One thread of the kernel. \<^verbatim>\<open>blockIdx.y * blockDim.y + threadIdx.y\<close> is computed in
  \<^verbatim>\<open>unsigned int\<close> and stored in an \<^verbatim>\<open>int\<close>; \<^verbatim>\<open>row * outputDim + col\<close> is signed.
\<close>

definition addBiasEfficient ::
  "dim3 \<Rightarrow> dim3 \<Rightarrow> dim3 \<Rightarrow> ('a::plus) list \<Rightarrow> int \<Rightarrow> int \<Rightarrow> 'a list \<Rightarrow> error + 'a list" where
  "addBiasEfficient blockIdx blockDim threadIdx bias batchSize outputDim output =
     (let row = to_int32 (dim_y blockIdx * dim_y blockDim + dim_y threadIdx);
          col = to_int32 (dim_x blockIdx * dim_x blockDim + dim_x threadIdx)
      in if row < batchSize \<and> col < outputDim then
           (let idx = row * outputDim + col
            in if \<not> int32_ok (row * outputDim) \<or> \<not> int32_ok idx then Inl SignedOverflow
               else if idx < 0 \<or> int (length output) \<le> idx then Inl (OutOfBounds KernelOutput)
               else if col < 0 \<or> int (length bias) \<le> col then Inl (OutOfBounds KernelBias)
               else Inr (output[nat idx := output ! nat idx + bias ! nat col]))
         else Inr output)"

text \<open>
  A launch \<^verbatim>\<open>addBiasEfficient<<<gridDim, blockDim>>>(...)\<close> runs the kernel once for every
  block index below \<open>gridDim\<close> and every thread index below \<open>blockDim\<close>. CUDA fixes no order
  among the threads; the model runs them one after the other in the order of
  \<open>grid_threads\<close>. A launch whose configuration the device refuses (a grid beyond
  \<open>2^31 - 1\<close> by \<open>65535\<close> by \<open>65535\<close> blocks, a block of more than 1024 threads, or an
  empty dimension) runs no thread; the source does not look at the launch status.
\<close>

definition dim3_below :: "dim3 \<Rightarrow> dim3 list" where
  "dim3_below d =
     map (\<lambda>(k, j, i). \<lparr>dim_x = i, dim_y = j, dim_z = k\<rparr>)
       (List.product [0 ..< dim_z d] (List.product [0 ..< dim_y d] [0 ..< dim_x d]))"

definition grid_threads :: "dim3 \<Rightarrow> dim3 \<Rightarrow> (dim3 \<times> dim3) list" where
  "grid_threads gridDim blockDim = List.product (dim3_below gridDim) (dim3_below blockDim)"

definition valid_launch :: "dim3 \<Rightarrow> dim3 \<Rightarrow> bool" where
  "valid_launch gridDim blockDim \<longleftrightarrow>
     0 < dim_x gridDim \<and> dim_x gridDim < 2 ^ 31 \<and>
     0 < dim_y gridDim \<and> dim_y gridDim \<le> 65535 \<and>
     0 < dim_z gridDim \<and> dim_z gridDim \<le> 65535 \<and>
     0 < dim_x blockDim \<and> 0 < dim_y blockDim \<and> 0 < dim_z blockDim \<and>
     dim_x blockDim * dim_y blockDim * dim_z blockDim \<le> 1024"

definition launch_addBiasEfficient ::
  "dim3 \<Rightarrow> dim3 \<Rightarrow> ('a::plus) list \<Rightarrow> int \<Rightarrow> int \<Rightarrow> 'a list \<Rightarrow> error + 'a list" where
  "launch_addBiasEfficient gridDim blockDim bias batchSize outputDim output =
     (if valid_launch gridDim blockDim
      then forM (grid_threads gridDim blockDim)
             (\<lambda>(blockIdx, threadIdx). addBiasEfficient blockIdx blockDim threadIdx bias batchSize outputDim)
             output
      else Inr output)"


section \<open>The CPU reference path and \<^verbatim>\<open>linear\<close>\<close>

text \<open>
  Modelled from the spec: \<^verbatim>\<open>dotSIMD\<close>, \<^verbatim>\<open>transpose\<close> and \<^verbatim>\<open>matmul\<close> are declared in the
  header \<^verbatim>\<open>Syntari.cuH\<close>; their bodies are not among the sources. The specification gives
  \<open>C = A \<cdot> B\<close> for \<open>A\<close> of shape \<open>M \<times> K\<close> and \<open>B\<close> of shape \<open>K \<times> N\<close>, computed on the CPU from
  a dot product and a transpose, and leaves operands whose shapes do not fit undefined.
\<close>

definition dotSIMD :: "('a::semiring_0) list \<Rightarrow> 'a list \<Rightarrow> 'a" where
  "dotSIMD a b = sum_list (map2 (*) a b)"

definition transpose_m :: "'a list list \<Rightarrow> 'a list list" where
  "transpose_m matrix =
     (case matrix of [] \<Rightarrow> [] | r # _ \<Rightarrow> map (\<lambda>j. map (\<lambda>row. row ! j) matrix) [0 ..< length r])"

definition cols :: "'a list list \<Rightarrow> nat" where
  "cols matrix = (case matrix of [] \<Rightarrow> 0 | r # _ \<Rightarrow> length r)"

definition is_matrix :: "nat \<Rightarrow> nat \<Rightarrow> 'a list list \<Rightarrow> bool" where
  "is_matrix m n matrix \<longleftrightarrow> length matrix = m \<and> list_all (\<lambda>row. length row = n) matrix"

definition matmul :: "('a::semiring_0) list list \<Rightarrow> 'a list list \<Rightarrow> error + 'a list list" where
  "matmul A B =
     (if list_all (\<lambda>row. length row = length B) A \<and> is_matrix (length B) (cols B) B
      then Inr (map (\<lambda>row. map (dotSIMD row) (transpose_m B)) A)
      else Inl (OutOfBounds MatmulOperand))"

text \<open>
  The triple-loop reference product the specification compares \<^verbatim>\<open>matmul\<close> with:
  \<^verbatim>\<open>for i < M: for j < N: for k < K: C[i][j] += A[i][k] * B[k][j]\<close>, from \<open>C = 0\<close>.
\<close>

definition matmul_reference :: "('a::semiring_0) list list \<Rightarrow> 'a list list \<Rightarrow> 'a list list" where
  "matmul_reference A B =
     map (\<lambda>i. map (\<lambda>j. foldl (\<lambda>acc k. acc + A ! i ! k * B ! k ! j) 0 [0 ..< length B])
                  [0 ..< cols B])
         [0 ..< length A]"

text \<open>
  Modelled from the spec: \<^verbatim>\<open>reluCUDA_batch\<close> is declared in the header and its body is not
  among the sources. \<^verbatim>\<open>linear\<close> calls it in place on its output as the activation
  \<open>ReLU\<close>, which maps \<open>x\<close> to \<open>max 0 x\<close>, element by element.
\<close>

definition relu :: "('a::{zero,linorder}) \<Rightarrow> 'a" where
  "relu v = max 0 v"

definition reluCUDA_batch :: "('a::{zero,linorder}) list list \<Rightarrow> 'a list list" where
  "reluCUDA_batch input = map (map relu) input"

text \<open>
  \<^verbatim>\<open>linear\<close>, lines 22 to 30: the product and the bias loop, before the activation.
  \<^verbatim>\<open>int batch_size = output.size(); int output_dim = output[0].size();\<close>
\<close>

definition linear_pre_activation ::
  "('a::semiring_0) list list \<Rightarrow> 'a list list \<Rightarrow> 'a list \<Rightarrow> error + 'a list list" where
  "linear_pre_activation input weights bias =
     (case matmul input weights of
        Inl e \<Rightarrow> Inl e
      | Inr output \<Rightarrow>
          (let batch_size = to_int32 (length output)
           in case output of
                [] \<Rightarrow> Inl (OutOfBounds Output0)
              | row0 # _ \<Rightarrow>
                  (let output_dim = to_int32 (length row0)
                   in add_bias_host bias batch_size output_dim output)))"

definition linear ::
  "('a::{semiring_0,linorder}) list list \<Rightarrow> 'a list list \<Rightarrow> 'a list \<Rightarrow> error + 'a list list" where
  "linear input weights bias =
     (case linear_pre_activation input weights bias of
        Inl e \<Rightarrow> Inl e
      | Inr output \<Rightarrow> Inr (reluCUDA_batch output))"


section \<open>The device and \<^verbatim>\<open>linearCUBLAS\<close>\<close>

text \<open>
  The device as the host program sees it. A device pointer is the index of its buffer
  in \<open>mem\<close>; a buffer that has been freed is \<open>None\<close>. \<^verbatim>\<open>cudaMallocAsync\<close> hands out the
  pointer at once and \<^verbatim>\<open>cudaFreeAsync\<close> gives the buffer up at once: from then on the host
  may not use the pointer. Buffers are counted in elements, not bytes. A new buffer holds
  whatever \<open>garbage\<close> was there. Copies, the matrix product and kernel launches are only
  queued on the stream (\<open>stream\<close>, stream 0 throughout the source):
  \<^verbatim>\<open>cudaStreamSynchronize\<close> is what runs them, in issue order, and a copy to the host
  reaches the host vector no earlier. \<open>calls\<close> lists the runtime calls and the host's
  reads of the result buffer in program order.
\<close>

type_synonym ptr = nat

datatype 'a op =
    CopyH2D ptr "'a list"
  | Sgemm bool bool int int int 'a ptr int ptr int 'a ptr int
  | AddBiasKernel dim3 dim3 ptr ptr int int
  | CopyD2H ptr nat

datatype call =
    MallocAsync ptr nat
  | MemcpyAsyncH2D ptr nat
  | CublasSgemm
  | LaunchAddBias dim3 dim3
  | MemcpyAsyncD2H ptr nat
  | StreamSynchronize
  | HostRead
  | FreeAsync ptr

record 'a device =
  mem :: "'a list option list"
  stream :: "'a op list"
  calls :: "call list"
  garbage :: "nat \<Rightarrow> 'a"

type_synonym ('a, 'r) cuda = "'a device \<Rightarrow> (error + 'r) \<times> 'a device"

definition ret :: "'r \<Rightarrow> ('a, 'r) cuda" where
  "ret r d = (Inr r, d)"

definition fail :: "error \<Rightarrow> ('a, 'r) cuda" where
  "fail e d = (Inl e, d)"

definition then_do :: "('a, 'r) cuda \<Rightarrow> ('r \<Rightarrow> ('a, 'q) cuda) \<Rightarrow> ('a, 'q) cuda" where
  "then_do m f d = (case m d of (Inl e, d') \<Rightarrow> (Inl e, d') | (Inr r, d') \<Rightarrow> f r d')"

definition buffer :: "'a list option list \<Rightarrow> ptr \<Rightarrow> error + 'a list" where
  "buffer m p =
     (if p < length m then (case m ! p of None \<Rightarrow> Inl (OutOfBounds DevicePointer) | Some b \<Rightarrow> Inr b)
      else Inl (OutOfBounds DevicePointer))"

subsection \<open>The vendor routine\<close>

text \<open>
  \<^verbatim>\<open>cublasSgemm(handle, transa, transb, m, n, k, &alpha, A, lda, B, ldb, &beta, C, ldc)\<close>
  as cuBLAS documents it: matrices are stored column by column, \<open>op(A)\<close> is \<open>m \<times> k\<close>,
  \<open>op(B)\<close> is \<open>k \<times> n\<close>, and \<open>C := alpha \<cdot> op(A) \<cdot> op(B) + beta \<cdot> C\<close> on the \<open>m \<times> n\<close>
  entries of \<open>C\<close>, which is not read when \<open>beta = 0\<close>. Parameters the routine refuses
  (a negative size, a leading dimension below the stored row count or below 1) make it
  return a status and compute nothing; the source does not look at the status.
\<close>

definition sgemm_params_ok :: "bool \<Rightarrow> bool \<Rightarrow> int \<Rightarrow> int \<Rightarrow> int \<Rightarrow> int \<Rightarrow> int \<Rightarrow> int \<Rightarrow> bool" where
  "sgemm_params_ok transa transb m n k lda ldb ldc \<longleftrightarrow>
     0 \<le> m \<and> 0 \<le> n \<and> 0 \<le> k \<and>
     max 1 (if transa then k else m) \<le> lda \<and>
     max 1 (if transb then n else k) \<le> ldb \<and>
     max 1 m \<le> ldc"

definition sgemm_entry ::
  "bool \<Rightarrow> bool \<Rightarrow> nat \<Rightarrow> ('a::semiring_1) \<Rightarrow> 'a list \<Rightarrow> nat \<Rightarrow> 'a list \<Rightarrow> nat \<Rightarrow> 'a \<Rightarrow> 'a \<Rightarrow> nat \<Rightarrow> nat \<Rightarrow> 'a" where
  "sgemm_entry transa transb k alpha A lda B ldb beta c i j =
     (let s = sum_list (map (\<lambda>l. (if transa then A ! (l + i * lda) else A ! (i + l * lda)) *
                                  (if transb then B ! (j + l * ldb) else B ! (l + j * ldb)))
                            [0 ..< k])
      in if beta = 0 then alpha * s else alpha * s + beta * c)"

definition stored_size :: "nat \<Rightarrow> nat \<Rightarrow> nat \<Rightarrow> nat" where
  "stored_size rows columns ld = (if rows = 0 \<or> columns = 0 then 0 else (columns - 1) * ld + rows)"

definition cublasSgemm_buffers ::
  "bool \<Rightarrow> bool \<Rightarrow> int \<Rightarrow> int \<Rightarrow> int \<Rightarrow> ('a::semiring_1) \<Rightarrow> 'a list \<Rightarrow> int \<Rightarrow> 'a list \<Rightarrow> int \<Rightarrow> 'a \<Rightarrow> 'a list \<Rightarrow> int
     \<Rightarrow> error + 'a list" where
  "cublasSgemm_buffers transa transb m n k alpha A lda B ldb beta C ldc =
     (if \<not> sgemm_params_ok transa transb m n k lda ldb ldc then Inr C
      else if length A < (if transa then stored_size (nat k) (nat m) (nat lda)
                          else stored_size (nat m) (nat k) (nat lda))
            \<or> length B < (if transb then stored_size (nat n) (nat k) (nat ldb)
                          else stored_size (nat k) (nat n) (nat ldb))
            \<or> length C < stored_size (nat m) (nat n) (nat ldc)
      then Inl (OutOfBounds DevicePointer)
      else Inr (map (\<lambda>p. if p mod nat ldc < nat m \<and> p div nat ldc < nat n
                          then sgemm_entry transa transb (nat k) alpha A (nat lda) B (nat ldb) beta (C ! p)
                                 (p mod nat ldc) (p div nat ldc)
                          else C ! p)
                    [0 ..< length C]))"

subsection \<open>Running the stream\<close>

definition exec_op :: "('a::semiring_1) op \<Rightarrow> 'a list option list \<times> 'a list \<Rightarrow> error + 'a list option list \<times> 'a list" where
  "exec_op operation state =
     (let m = fst state; host = snd state
      in case operation of
           CopyH2D dst src \<Rightarrow>
             (case buffer m dst of
                Inl e \<Rightarrow> Inl e
              | Inr b \<Rightarrow>
                  if length b < length src then Inl (OutOfBounds DevicePointer)
                  else Inr (m[dst := Some (src @ drop (length src) b)], host))
         | Sgemm transa transb gm gn gk alpha pa lda pb ldb beta pc ldc \<Rightarrow>
             (case buffer m pa of
                Inl e \<Rightarrow> Inl e
              | Inr A \<Rightarrow>
                  (case buffer m pb of
                     Inl e \<Rightarrow> Inl e
                   | Inr B \<Rightarrow>
                       (case buffer m pc of
                          Inl e \<Rightarrow> Inl e
                        | Inr C \<Rightarrow>
                            (case cublasSgemm_buffers transa transb gm gn gk alpha A lda B ldb beta C ldc of
                               Inl e \<Rightarrow> Inl e
                             | Inr C' \<Rightarrow> Inr (m[pc := Some C'], host)))))
         | AddBiasKernel gridDim blockDim pout pbias batchSize outputDim \<Rightarrow>
             (case buffer m pout of
                Inl e \<Rightarrow> Inl e
              | Inr out \<Rightarrow>
                  (case buffer m pbias of
                     Inl e \<Rightarrow> Inl e
                   | Inr bias \<Rightarrow>
                       (case launch_addBiasEfficient gridDim blockDim bias batchSize outputDim out of
                          Inl e \<Rightarrow> Inl e
                        | Inr out' \<Rightarrow> Inr (m[pout := Some out'], host))))
         | CopyD2H src count \<Rightarrow>
             (case buffer m src of
                Inl e \<Rightarrow> Inl e
              | Inr b \<Rightarrow>
                  if length b < count then Inl (OutOfBounds DevicePointer)
                  else if length host < count then Inl (OutOfBounds HostCopy)
                  else Inr (m, take count b @ drop count host)))"

subsection \<open>The runtime calls\<close>

definition cudaMallocAsync :: "nat \<Rightarrow> ('a, ptr) cuda" where
  "cudaMallocAsync count d =
     (Inr (length (mem d)),
      d\<lparr>mem := mem d @ [Some (map (garbage d) [0 ..< count])],
        calls := calls d @ [MallocAsync (length (mem d)) count]\<rparr>)"

definition cudaMemcpyAsync_H2D :: "ptr \<Rightarrow> 'a list \<Rightarrow> nat \<Rightarrow> ('a, unit) cuda" where
  "cudaMemcpyAsync_H2D dst src count d =
     (if length src < count then (Inl (OutOfBounds HostCopy), d\<lparr>calls := calls d @ [MemcpyAsyncH2D dst count]\<rparr>)
      else (Inr (), d\<lparr>stream := stream d @ [CopyH2D dst (take count src)],
                       calls := calls d @ [MemcpyAsyncH2D dst count]\<rparr>))"

definition cudaMemcpyAsync_D2H :: "ptr \<Rightarrow> nat \<Rightarrow> ('a, unit) cuda" where
  "cudaMemcpyAsync_D2H src count d =
     (Inr (), d\<lparr>stream := stream d @ [CopyD2H src count],
                 calls := calls d @ [MemcpyAsyncD2H src count]\<rparr>)"

type_synonym cublasHandle_t = nat

definition cublasSgemm ::
  "cublasHandle_t \<Rightarrow> bool \<Rightarrow> bool \<Rightarrow> int \<Rightarrow> int \<Rightarrow> int \<Rightarrow> 'a \<Rightarrow> ptr \<Rightarrow> int \<Rightarrow> ptr \<Rightarrow> int \<Rightarrow> 'a \<Rightarrow> ptr \<Rightarrow> int
     \<Rightarrow> ('a, unit) cuda" where
  "cublasSgemm handle transa transb m n k alpha A lda B ldb beta C ldc d =
     (Inr (), d\<lparr>stream := stream d @ [Sgemm transa transb m n k alpha A lda B ldb beta C ldc],
                 calls := calls d @ [CublasSgemm]\<rparr>)"

definition launch :: "dim3 \<Rightarrow> dim3 \<Rightarrow> ptr \<Rightarrow> ptr \<Rightarrow> int \<Rightarrow> int \<Rightarrow> ('a, unit) cuda" where
  "launch gridDim blockDim output bias batchSize outputDim d =
     (Inr (), d\<lparr>stream := stream d @ [AddBiasKernel gridDim blockDim output bias batchSize outputDim],
                 calls := calls d @ [LaunchAddBias gridDim blockDim]\<rparr>)"

definition cudaStreamSynchronize :: "('a::semiring_1) list \<Rightarrow> ('a, 'a list) cuda" where
  "cudaStreamSynchronize host d =
     (case forM (stream d) exec_op (mem d, host) of
        Inl e \<Rightarrow> (Inl e, d\<lparr>stream := [], calls := calls d @ [StreamSynchronize]\<rparr>)
      | Inr (m, host') \<Rightarrow> (Inr host', d\<lparr>mem := m, stream := [], calls := calls d @ [StreamSynchronize]\<rparr>))"

definition cudaFreeAsync :: "ptr \<Rightarrow> ('a, unit) cuda" where
  "cudaFreeAsync p d =
     (Inr (), d\<lparr>mem := (if p < length (mem d) then (mem d)[p := None] else mem d),
                 calls := calls d @ [FreeAsync p]\<rparr>)"


subsection \<open>\<^verbatim>\<open>linearCUBLAS\<close>\<close>

text \<open>C++ division of \<^verbatim>\<open>int\<close>s truncates; an \<^verbatim>\<open>int\<close> passed to \<^verbatim>\<open>dim3\<close> becomes unsigned.\<close>

definition tdiv :: "int \<Rightarrow> int \<Rightarrow> int" where
  "tdiv a b = sgn a * sgn b * (\<bar>a\<bar> div \<bar>b\<bar>)"

definition to_uint32 :: "int \<Rightarrow> nat" where
  "to_uint32 v = nat (v mod 2 ^ 32)"

text \<open>
  \<^verbatim>\<open>dim3 threads(16, 16);
  dim3 blocks((outputDim + 15) / 16, (batchSize + 15) / 16);\<close>
\<close>

definition threads :: dim3 where
  "threads = \<lparr>dim_x = 16, dim_y = 16, dim_z = 1\<rparr>"

definition blocks :: "int \<Rightarrow> int \<Rightarrow> ('a, dim3) cuda" where
  "blocks outputDim batchSize =
     (if \<not> int32_ok (outputDim + 15) \<or> \<not> int32_ok (batchSize + 15) then fail SignedOverflow
      else ret \<lparr>dim_x = to_uint32 (tdiv (outputDim + 15) 16),
                dim_y = to_uint32 (tdiv (batchSize + 15) 16), dim_z = 1\<rparr>)"

text \<open>
  \<^verbatim>\<open>std::vector<std::vector<float>> output(batchSize);
  for (int i = 0; i < batchSize; ++i)
      output[i] = std::vector<float>(flatOutput.begin() + i * outputDim,
                                     flatOutput.begin() + (i + 1) * outputDim);\<close>
\<close>

definition reassemble_row :: "'a list \<Rightarrow> int \<Rightarrow> nat \<Rightarrow> 'a list list \<Rightarrow> error + 'a list list" where
  "reassemble_row flatOutput outputDim i output =
     (let lo = int i * outputDim; hi = (int i + 1) * outputDim
      in if \<not> int32_ok lo \<or> \<not> int32_ok hi then Inl SignedOverflow
         else if lo < 0 \<or> hi < lo \<or> int (length flatOutput) < hi \<or> length output \<le> i
         then Inl (OutOfBounds Reassemble)
         else Inr (output[i := take (nat (hi - lo)) (drop (nat lo) flatOutput)]))"

definition reassemble :: "'a list \<Rightarrow> int \<Rightarrow> int \<Rightarrow> ('a, 'a list list) cuda" where
  "reassemble flatOutput batchSize outputDim d =
     (if vector_max_size 24 < to_size batchSize then (Inl LengthError, d)
      else (forM (int_range batchSize) (reassemble_row flatOutput outputDim)
              (replicate (to_size batchSize) []),
            d\<lparr>calls := calls d @ [HostRead]\<rparr>))"

text \<open>
  The function itself. \<^verbatim>\<open>flatInput.reserve(inputSize)\<close>, \<^verbatim>\<open>flatWeights.reserve(weightSize)\<close>
  and \<^verbatim>\<open>std::vector<float> flatOutput(outputSize)\<close> come before the first call to the
  device and throw when the size, an \<^verbatim>\<open>int\<close> product converted to \<^verbatim>\<open>size_t\<close>, is beyond
  \<^verbatim>\<open>max_size()\<close>; \<^verbatim>\<open>std::vector<std::vector<float>> output(batchSize)\<close> comes after the
  wait for the stream and throws in the same way.
\<close>

definition linearCUBLAS ::
  "('a::semiring_1) list list \<Rightarrow> 'a list list \<Rightarrow> 'a list \<Rightarrow> cublasHandle_t \<Rightarrow> ('a, 'a list list) cuda" where
  "linearCUBLAS input weights bias handle =
     (case input of
        [] \<Rightarrow> fail (OutOfBounds Input0)
      | row0 # _ \<Rightarrow>
          (let batchSize = to_int32 (length input);
               inputDim = to_int32 (length row0);
               outputDim = to_int32 (length weights)
           in if \<not> int32_ok (batchSize * inputDim) \<or> \<not> int32_ok (outputDim * inputDim)
                 \<or> \<not> int32_ok (batchSize * outputDim)
              then fail SignedOverflow
              else
                (let inputSize = to_size (batchSize * inputDim);
                     weightSize = to_size (outputDim * inputDim);
                     biasSize = length bias;
                     outputSize = to_size (batchSize * outputDim)
                 in if vector_max_size 4 < inputSize \<or> vector_max_size 4 < weightSize
                       \<or> vector_max_size 4 < outputSize
                    then fail LengthError
                    else
                (let flatInput = concat input;
                     flatWeights = concat weights;
                     flatBias = bias;
                     flatOutput = replicate outputSize 0
                 in then_do (cudaMallocAsync inputSize) (\<lambda>d_input.
                    then_do (cudaMallocAsync weightSize) (\<lambda>d_weights.
                    then_do (cudaMallocAsync biasSize) (\<lambda>d_bias.
                    then_do (cudaMallocAsync outputSize) (\<lambda>d_output.
                    then_do (cudaMemcpyAsync_H2D d_input flatInput inputSize) (\<lambda>_.
                    then_do (cudaMemcpyAsync_H2D d_weights flatWeights weightSize) (\<lambda>_.
                    then_do (cudaMemcpyAsync_H2D d_bias flatBias biasSize) (\<lambda>_.
                    then_do (cublasSgemm handle True False outputDim batchSize inputDim 1
                               d_weights inputDim d_input inputDim 0 d_output outputDim) (\<lambda>_.
                    then_do (blocks outputDim batchSize) (\<lambda>blocks.
                    then_do (launch blocks threads d_output d_bias batchSize outputDim) (\<lambda>_.
                    then_do (cudaMemcpyAsync_D2H d_output outputSize) (\<lambda>_.
                    then_do (cudaStreamSynchronize flatOutput) (\<lambda>flatOutput.
                    then_do (reassemble flatOutput batchSize outputDim) (\<lambda>output.
                    then_do (cudaFreeAsync d_input) (\<lambda>_.
                    then_do (cudaFreeAsync d_weights) (\<lambda>_.
                    then_do (cudaFreeAsync d_bias) (\<lambda>_.
                    then_do (cudaFreeAsync d_output) (\<lambda>_.
                    ret output)))))))))))))))))))))"

text \<open>The buffers a device holds, and a device with nothing on it.\<close>

definition live :: "'a device \<Rightarrow> ptr list" where
  "live d = filter (\<lambda>p. mem d ! p \<noteq> None) [0 ..< length (mem d)]"

definition idle_device :: "(nat \<Rightarrow> 'a) \<Rightarrow> 'a device" where
  "idle_device g = \<lparr>mem = [], stream = [], calls = [], garbage = g\<rparr>"


section \<open>Softmax\<close>

text \<open>
  Modelled from the spec: \<^verbatim>\<open>softmax\<close> is declared in the header and its body is not among
  the sources. The specification gives the algorithm per row: find the row maximum,
  compute \<open>exp (x - rowMax)\<close> for every entry and their sum, divide every exponential by
  the sum. It is read here over the reals; a row without entries has no maximum.
\<close>

definition softmax :: "real list \<Rightarrow> error + real list" where
  "softmax input =
     (case input of
        [] \<Rightarrow> Inl (OutOfBounds RowMaximum)
      | v # vs \<Rightarrow>
          (let rowMax = fold max vs v;
               exps = map (\<lambda>x. exp (x - rowMax)) input;
               rowSum = sum_list exps
           in Inr (map (\<lambda>e. e / rowSum) exps)))"

section \<open>Notions used in the proofs\<close>

text \<open>
  The row and column a thread computes, before the conversion to \<^verbatim>\<open>int\<close>, and the
  flattened indices that the threads of a list write to.
\<close>

definition thread_rc :: "dim3 \<Rightarrow> dim3 \<times> dim3 \<Rightarrow> nat \<times> nat" where
  "thread_rc blockDim bt =
     (dim_y (fst bt) * dim_y blockDim + dim_y (snd bt), dim_x (fst bt) * dim_x blockDim + dim_x (snd bt))"

definition hits :: "dim3 \<Rightarrow> nat \<Rightarrow> nat \<Rightarrow> (dim3 \<times> dim3) list \<Rightarrow> nat \<Rightarrow> bool" where
  "hits blockDim M N ts k \<longleftrightarrow>
     (\<exists>bt \<in> set ts. fst (thread_rc blockDim bt) < M \<and> snd (thread_rc blockDim bt) < N \<and>
        fst (thread_rc blockDim bt) * N + snd (thread_rc blockDim bt) = k)"


text \<open>
  The product \<open>input \<cdot> weights\<^sup>T\<close> row by row, a matrix with the bias added to every row,
  the runtime calls of one complete run of \<^verbatim>\<open>linearCUBLAS\<close> in program order, the pattern of
  freed buffers of a device memory, and the failures of the model that the source neither
  checks for nor reports: all but \<open>InvalidDimension\<close> and the two reads of row 0.
\<close>

definition product_rows :: "('a::semiring_1) list list \<Rightarrow> 'a list list \<Rightarrow> 'a list list" where
  "product_rows input weights = map (\<lambda>row. map (\<lambda>w. dotSIMD w row) weights) input"

definition biased :: "('a::plus) list \<Rightarrow> 'a list list \<Rightarrow> 'a list list" where
  "biased bias rows = map (\<lambda>row. map2 (+) row bias) rows"

definition issued :: "ptr \<Rightarrow> nat \<Rightarrow> nat \<Rightarrow> nat \<Rightarrow> nat \<Rightarrow> dim3 \<Rightarrow> call list" where
  "issued p a b c e g =
     [MallocAsync p a, MallocAsync (Suc p) b, MallocAsync (Suc (Suc p)) c,
      MallocAsync (Suc (Suc (Suc p))) e,
      MemcpyAsyncH2D p a, MemcpyAsyncH2D (Suc p) b, MemcpyAsyncH2D (Suc (Suc p)) c,
      CublasSgemm,
      LaunchAddBias g threads,
      MemcpyAsyncD2H (Suc (Suc (Suc p))) e,
      StreamSynchronize, HostRead,
      FreeAsync p, FreeAsync (Suc p), FreeAsync (Suc (Suc p)), FreeAsync (Suc (Suc (Suc p)))]"

definition freed :: "'a list option list \<Rightarrow> bool list" where
  "freed m = map (\<lambda>b. b = None) m"

definition unhandled :: "error \<Rightarrow> bool" where
  "unhandled e \<longleftrightarrow> e \<noteq> InvalidDimension \<and> e \<noteq> OutOfBounds Input0 \<and> e \<noteq> OutOfBounds Output0"

text \<open>
  Reading the calls of a run from left to right: has a copy to the host been issued, and
  has the host waited for the stream since? A read of the host buffer is in order only
  after both.
\<close>

datatype sync_state = NoCopy | CopyPending | CopyDone

fun host_reads_synced :: "sync_state \<Rightarrow> call list \<Rightarrow> bool" where
  "host_reads_synced s [] = True"
| "host_reads_synced s (c # cs) =
     (case c of
        MemcpyAsyncD2H p n \<Rightarrow> host_reads_synced CopyPending cs
      | StreamSynchronize \<Rightarrow> host_reads_synced (if s = CopyPending then CopyDone else s) cs
      | HostRead \<Rightarrow> s = CopyDone \<and> host_reads_synced s cs
      | _ \<Rightarrow> host_reads_synced s cs)"

section \<open>Loops and integer conversions\<close>

lemma to_int32_small: "n < 2 ^ 31 \<Longrightarrow> to_int32 n = int n"
  by (simp add: to_int32_def Let_def)

lemma forM_invariant:
  assumes "forM xs body s = Inr s'" and "P s"
    and "\<And>i t t'. i \<in> set xs \<Longrightarrow> P t \<Longrightarrow> body i t = Inr t' \<Longrightarrow> P t'"
  shows "P s'"
  using assms
proof (induction xs arbitrary: s)
  case Nil
  then show ?case by simp
next
  case (Cons i xs)
  from Cons.prems(1) obtain t where t: "body i s = Inr t" and r: "forM xs body t = Inr s'"
    by (auto split: sum.splits)
  have "P t" using Cons.prems(3)[of i s t] Cons.prems(2) t by simp
  then show ?case using Cons.IH[OF r] Cons.prems(3) by (meson list.set_intros(2))
qed

lemma idx_in_region:
  fixes row col batchSize outputDim :: int
  assumes "row < batchSize" "col < outputDim" "0 \<le> col" "0 \<le> row * outputDim + col"
  shows "row * outputDim + col < batchSize * outputDim \<and> 0 \<le> row"
proof -
  have pos: "0 < outputDim" using assms by linarith
  have "0 \<le> row"
  proof (rule ccontr)
    assume "\<not> 0 \<le> row"
    then have "row \<le> -1" by linarith
    then have "row * outputDim \<le> (-1) * outputDim"
      using pos by (intro mult_right_mono) auto
    with assms show False by linarith
  qed
  moreover have "(row + 1) * outputDim \<le> batchSize * outputDim"
    using assms pos by (intro mult_right_mono) auto
  then have "row * outputDim + outputDim \<le> batchSize * outputDim"
    by (simp add: algebra_simps)
  ultimately show ?thesis using assms by linarith
qed

lemma addBiasEfficient_frame:
  assumes "addBiasEfficient blockIdx blockDim threadIdx bias batchSize outputDim output = Inr out'"
  shows "length out' = length output \<and>
         (\<forall>k. batchSize * outputDim \<le> int k \<longrightarrow> out' ! k = output ! k)"
proof -
  define row where "row = to_int32 (dim_y blockIdx * dim_y blockDim + dim_y threadIdx)"
  define col where "col = to_int32 (dim_x blockIdx * dim_x blockDim + dim_x threadIdx)"
  show ?thesis
  proof (cases "row < batchSize \<and> col < outputDim")
    case False
    with assms show ?thesis
      by (auto simp: addBiasEfficient_def Let_def row_def col_def)
  next
    case True
    with assms have ok: "0 \<le> row * outputDim + col" "0 \<le> col"
      and out': "out' = output[nat (row * outputDim + col) := output ! nat (row * outputDim + col) + bias ! nat col]"
      by (auto simp: addBiasEfficient_def Let_def row_def col_def split: if_splits)
    from idx_in_region[of row batchSize col outputDim] True ok
    have "row * outputDim + col < batchSize * outputDim" by simp
    then show ?thesis using ok by (auto simp: out')
  qed
qed

lemma launch_frame:
  assumes "launch_addBiasEfficient gridDim blockDim bias batchSize outputDim output = Inr out'"
  shows "length out' = length output \<and>
         (\<forall>k. batchSize * outputDim \<le> int k \<longrightarrow> out' ! k = output ! k)"
proof (cases "valid_launch gridDim blockDim")
  case False
  with assms show ?thesis by (simp add: launch_addBiasEfficient_def)
next
  case True
  with assms have run: "forM (grid_threads gridDim blockDim)
             (\<lambda>(blockIdx, threadIdx). addBiasEfficient blockIdx blockDim threadIdx bias batchSize outputDim)
             output = Inr out'"
    by (simp add: launch_addBiasEfficient_def)
  show ?thesis
    by (rule forM_invariant[OF run, where P = "\<lambda>t. length t = length output \<and>
         (\<forall>k. batchSize * outputDim \<le> int k \<longrightarrow> t ! k = output ! k)"])
       (auto dest!: addBiasEfficient_frame)
qed


lemma addBiasEfficient_skip:
  assumes "r < 2 ^ 31" "c < 2 ^ 31" "thread_rc blockDim (b, t) = (r, c)" "\<not> (r < M \<and> c < N)"
  shows "addBiasEfficient b blockDim t bias (int M) (int N) output = Inr output"
  using assms by (auto simp: addBiasEfficient_def thread_rc_def Let_def to_int32_small)

lemma nat_idx_less:
  fixes r c M N :: nat
  assumes "r < M" "c < N"
  shows "r * N + c < M * N"
proof -
  have "r * N + c < r * N + N" using assms by simp
  also have "\<dots> = (r + 1) * N" by simp
  also have "\<dots> \<le> M * N" using assms by (intro mult_le_mono1) simp
  finally show ?thesis .
qed

lemma int32_ok_nat: "n < 2 ^ 31 \<Longrightarrow> int32_ok (int n)"
  by (simp add: int32_ok_def)

lemma addBiasEfficient_hit:
  assumes "thread_rc blockDim (b, t) = (r, c)" "r < M" "c < N"
    and "M * N \<le> length output" "N \<le> length bias" "M * N < 2 ^ 31"
  shows "addBiasEfficient b blockDim t bias (int M) (int N) output =
           Inr (output[r * N + c := output ! (r * N + c) + bias ! c])"
proof -
  have lt: "r * N + c < M * N" using assms by (intro nat_idx_less)
  have r: "r < 2 ^ 31" 
  proof -
    have "r * 1 \<le> r * N" using assms by (intro mult_le_mono2) simp
    then show ?thesis using lt assms by linarith
  qed
  have c: "c < 2 ^ 31" using lt assms by linarith
  have rN: "r * N < 2 ^ 31" and rNc: "r * N + c < 2 ^ 31" using lt assms by linarith+
  have row: "to_int32 (dim_y b * dim_y blockDim + dim_y t) = int r"
    and col: "to_int32 (dim_x b * dim_x blockDim + dim_x t) = int c"
    using assms(1) r c by (simp_all add: thread_rc_def to_int32_small)
  have ok: "int32_ok (int r * int N)" "int32_ok (int r * int N + int c)"
    using int32_ok_nat[OF rN] int32_ok_nat[OF rNc] by simp_all
  have idx: "nat (int r * int N + int c) = r * N + c"
    by (simp add: nat_add_distrib nat_mult_distrib)
  have eq: "int r * int N + int c = int (r * N + c)" by simp
  have "int (r * N + c) < int (length output)" using lt assms(4) by linarith
  then have inb: "int r * int N + int c < int (length output)" "0 \<le> int r * int N + int c"
    by (simp_all only: eq of_nat_0_le_iff)
  have nneg: "\<not> int r * int N + int c < 0" using inb(2) by linarith
  show ?thesis
    unfolding addBiasEfficient_def row col Let_def
    using ok inb(1) nneg assms(2,3,5) by (simp add: idx)
qed


lemma rowmajor_inj:
  fixes r c r' c' N :: nat
  assumes "c < N" "c' < N" "r * N + c = r' * N + c'"
  shows "r = r' \<and> c = c'"
proof -
  have "(r * N + c) div N = r" "(r' * N + c') div N = r'"
       "(r * N + c) mod N = c" "(r' * N + c') mod N = c'"
    using assms(1,2) by simp_all
  then show ?thesis using assms(3) by metis
qed

lemma forM_addBias:
  assumes "distinct (map (thread_rc blockDim) ts)"
    and "\<forall>bt \<in> set ts. fst (thread_rc blockDim bt) < 2 ^ 31 \<and> snd (thread_rc blockDim bt) < 2 ^ 31"
    and "M * N \<le> length out" "N \<le> length bias" "M * N < 2 ^ 31"
  shows "\<exists>out'. forM ts (\<lambda>(b, t). addBiasEfficient b blockDim t bias (int M) (int N)) out = Inr out' \<and>
           length out' = length out \<and>
           (\<forall>k < length out. out' ! k =
              (if hits blockDim M N ts k then out ! k + bias ! (k mod N) else out ! k))"
  using assms
proof (induction ts arbitrary: out)
  case Nil
  then show ?case by (simp add: hits_def)
next
  case (Cons bt ts)
  obtain b t where bt: "bt = (b, t)" by (cases bt)
  obtain r c where rc: "thread_rc blockDim (b, t) = (r, c)" by (cases "thread_rc blockDim (b, t)")
  have small: "r < 2 ^ 31" "c < 2 ^ 31" using Cons.prems(2) bt rc by auto
  have fresh: "(r, c) \<notin> thread_rc blockDim ` set ts" using Cons.prems(1) bt rc by auto
  have d: "distinct (map (thread_rc blockDim) ts)" using Cons.prems(1) by simp
  have s: "\<forall>bt \<in> set ts. fst (thread_rc blockDim bt) < 2 ^ 31 \<and> snd (thread_rc blockDim bt) < 2 ^ 31"
    using Cons.prems(2) by simp
  show ?case
  proof (cases "r < M \<and> c < N")
    case False
    have step: "addBiasEfficient b blockDim t bias (int M) (int N) out = Inr out"
      using addBiasEfficient_skip[OF small rc False] .
    have nohit: "hits blockDim M N ((b, t) # ts) k = hits blockDim M N ts k" for k
      using False bt rc by (auto simp: hits_def)
    from Cons.IH[OF d s Cons.prems(3,4,5)] show ?thesis
      by (simp add: bt step nohit)
  next
    case True
    define out1 where "out1 = out[r * N + c := out ! (r * N + c) + bias ! c]"
    have step: "addBiasEfficient b blockDim t bias (int M) (int N) out = Inr out1"
      unfolding out1_def using addBiasEfficient_hit[OF rc _ _ Cons.prems(3,4,5)] True by simp
    have len1: "M * N \<le> length out1" using Cons.prems(3) by (simp add: out1_def)
    from Cons.IH[OF d s len1 Cons.prems(4,5)] obtain out' where
      run: "forM ts (\<lambda>(b, t). addBiasEfficient b blockDim t bias (int M) (int N)) out1 = Inr out'"
      and len: "length out' = length out1"
      and val: "\<forall>k < length out1. out' ! k =
              (if hits blockDim M N ts k then out1 ! k + bias ! (k mod N) else out1 ! k)"
      by blast
    have nothit: "\<not> hits blockDim M N ts (r * N + c)"
    proof
      assume "hits blockDim M N ts (r * N + c)"
      then obtain bt' where bt': "bt' \<in> set ts" "snd (thread_rc blockDim bt') < N"
        "fst (thread_rc blockDim bt') * N + snd (thread_rc blockDim bt') = r * N + c"
        by (auto simp: hits_def)
      from rowmajor_inj[OF bt'(2) _ bt'(3)] True
      have "thread_rc blockDim bt' = (r, c)" by (simp add: prod_eq_iff)
      with bt'(1) fresh show False by force
    qed
    have hit_here: "hits blockDim M N ((b, t) # ts) k \<longleftrightarrow> k = r * N + c \<or> hits blockDim M N ts k" for k
      using True bt rc by (auto simp: hits_def)
    have lt: "r * N + c < length out"
      using nat_idx_less[of r M c N] True Cons.prems(3) by simp
    have modc: "(r * N + c) mod N = c" using True by simp
    have "\<forall>k < length out. out' ! k =
              (if hits blockDim M N ((b, t) # ts) k then out ! k + bias ! (k mod N) else out ! k)"
    proof (intro allI impI)
      fix k assume k: "k < length out"
      show "out' ! k = (if hits blockDim M N ((b, t) # ts) k then out ! k + bias ! (k mod N) else out ! k)"
      proof (cases "k = r * N + c")
        case True
        then show ?thesis using val k nothit lt modc by (simp add: hit_here out1_def)
      next
        case False
        then show ?thesis using val k by (simp add: hit_here out1_def)
      qed
    qed
    then show ?thesis using run len by (simp add: bt step out1_def)
  qed
qed


lemma set_dim3_below:
  "set (dim3_below d) = {b. dim_x b < dim_x d \<and> dim_y b < dim_y d \<and> dim_z b < dim_z d}"
proof -
  have "b \<in> set (dim3_below d) \<longleftrightarrow> dim_x b < dim_x d \<and> dim_y b < dim_y d \<and> dim_z b < dim_z d" for b
  proof
    assume "b \<in> set (dim3_below d)"
    then show "dim_x b < dim_x d \<and> dim_y b < dim_y d \<and> dim_z b < dim_z d"
      by (auto simp: dim3_below_def)
  next
    assume a: "dim_x b < dim_x d \<and> dim_y b < dim_y d \<and> dim_z b < dim_z d"
    have "b = (\<lambda>(k, j, i). \<lparr>dim_x = i, dim_y = j, dim_z = k\<rparr>) (dim_z b, dim_y b, dim_x b)"
      by simp
    moreover have "(dim_z b, dim_y b, dim_x b) \<in>
        set (List.product [0 ..< dim_z d] (List.product [0 ..< dim_y d] [0 ..< dim_x d]))"
      using a by simp
    ultimately show "b \<in> set (dim3_below d)"
      unfolding dim3_below_def set_map by (rule image_eqI)
  qed
  then show ?thesis by blast
qed

lemma distinct_dim3_below: "distinct (dim3_below d)"
  unfolding dim3_below_def
  by (rule distinct_map[THEN iffD2]) (auto simp: distinct_product inj_on_def)

lemma distinct_grid_threads: "distinct (grid_threads g d)"
  by (simp add: grid_threads_def distinct_product distinct_dim3_below)

lemma set_grid_threads:
  "set (grid_threads g d) = set (dim3_below g) \<times> set (dim3_below d)"
  by (simp add: grid_threads_def)

lemma divmod_inj:
  fixes b t b' t' D :: nat
  assumes "t < D" "t' < D" "b * D + t = b' * D + t'"
  shows "b = b' \<and> t = t'"
  using rowmajor_inj[OF assms] .

lemma thread_rc_inj:
  assumes "dim_z g = 1" "dim_z d = 1"
  shows "inj_on (thread_rc d) (set (grid_threads g d))"
proof (rule inj_onI)
  fix p q assume p: "p \<in> set (grid_threads g d)" and q: "q \<in> set (grid_threads g d)"
    and e: "thread_rc d p = thread_rc d q"
  obtain b t where pq: "p = (b, t)" by (cases p)
  obtain b' t' where qq: "q = (b', t')" by (cases q)
  from p q have m: "dim_x t < dim_x d" "dim_y t < dim_y d" "dim_z t = 0" "dim_z b = 0"
     "dim_x t' < dim_x d" "dim_y t' < dim_y d" "dim_z t' = 0" "dim_z b' = 0"
    using assms by (auto simp: pq qq set_grid_threads set_dim3_below)
  from e have ey: "dim_y b * dim_y d + dim_y t = dim_y b' * dim_y d + dim_y t'"
    and ex: "dim_x b * dim_x d + dim_x t = dim_x b' * dim_x d + dim_x t'"
    by (simp_all add: thread_rc_def pq qq)
  from divmod_inj[OF m(2) m(6) ey] divmod_inj[OF m(1) m(5) ex] m(3,4,7,8)
  show "p = q" by (simp add: pq qq)
qed

lemma thread_rc_bound:
  assumes "bt \<in> set (grid_threads g d)"
  shows "fst (thread_rc d bt) < dim_y g * dim_y d \<and> snd (thread_rc d bt) < dim_x g * dim_x d"
proof -
  obtain b t where bt: "bt = (b, t)" by (cases bt)
  from assms have m: "dim_x t < dim_x d" "dim_y t < dim_y d" "dim_x b < dim_x g" "dim_y b < dim_y g"
    by (auto simp: bt set_grid_threads set_dim3_below)
  have "dim_y b * dim_y d + dim_y t < dim_y g * dim_y d"
    using nat_idx_less[OF m(4) m(2)] .
  moreover have "dim_x b * dim_x d + dim_x t < dim_x g * dim_x d"
    using nat_idx_less[OF m(3) m(1)] .
  ultimately show ?thesis by (simp add: bt thread_rc_def)
qed

lemma hits_grid:
  assumes z: "dim_z g = 1" "dim_z d = 1"
    and cover: "M \<le> dim_y g * dim_y d" "N \<le> dim_x g * dim_x d"
  shows "hits d M N (grid_threads g d) k \<longleftrightarrow> k < M * N"
proof
  assume "hits d M N (grid_threads g d) k"
  then show "k < M * N" by (auto simp: hits_def intro: nat_idx_less)
next
  assume k: "k < M * N"
  then have N: "0 < N" by (cases N) auto
  define r c where "r = k div N" and "c = k mod N"
  have rM: "r < M" using k N by (simp add: r_def less_mult_imp_div_less)
  have cN: "c < N" using N by (simp add: c_def)
  have kk: "r * N + c = k" by (simp add: r_def c_def)
  have dy: "0 < dim_y d" using rM cover(1) by (cases "dim_y d") auto
  have dx: "0 < dim_x d" using cN cover(2) by (cases "dim_x d") auto
  define b where "b = \<lparr>dim_x = c div dim_x d, dim_y = r div dim_y d, dim_z = 0\<rparr>"
  define t where "t = \<lparr>dim_x = c mod dim_x d, dim_y = r mod dim_y d, dim_z = 0\<rparr>"
  have "r div dim_y d < dim_y g" using rM cover(1) dy
    by (metis less_mult_imp_div_less order_less_le_trans)
  moreover have "c div dim_x d < dim_x g" using cN cover(2) dx
    by (metis less_mult_imp_div_less order_less_le_trans)
  ultimately have mem: "(b, t) \<in> set (grid_threads g d)"
    using z dx dy by (simp add: set_grid_threads set_dim3_below b_def t_def)
  have rc: "thread_rc d (b, t) = (r, c)"
    by (simp add: thread_rc_def b_def t_def)
  show "hits d M N (grid_threads g d) k"
    unfolding hits_def using mem rc rM cN kk by (intro bexI[of _ "(b, t)"]) simp_all
qed

lemma launch_addBiasEfficient_correct:
  assumes v: "valid_launch g d" and z: "dim_z g = 1" "dim_z d = 1"
    and cover: "M \<le> dim_y g * dim_y d" "N \<le> dim_x g * dim_x d"
    and nowrap: "dim_y g * dim_y d \<le> 2 ^ 31" "dim_x g * dim_x d \<le> 2 ^ 31"
    and sz: "M * N \<le> length out" "N \<le> length bias" "M * N < 2 ^ 31"
  shows "launch_addBiasEfficient g d bias (int M) (int N) out =
           Inr (map (\<lambda>k. if k < M * N then out ! k + bias ! (k mod N) else out ! k) [0 ..< length out])"
proof -
  have d: "distinct (map (thread_rc d) (grid_threads g d))"
    using distinct_grid_threads thread_rc_inj[OF z] by (simp add: distinct_map)
  have s: "\<forall>bt \<in> set (grid_threads g d). fst (thread_rc d bt) < 2 ^ 31 \<and> snd (thread_rc d bt) < 2 ^ 31"
  proof
    fix bt assume "bt \<in> set (grid_threads g d)"
    from thread_rc_bound[OF this] nowrap
    show "fst (thread_rc d bt) < 2 ^ 31 \<and> snd (thread_rc d bt) < 2 ^ 31" by linarith
  qed
  from forM_addBias[OF d s sz] obtain out' where
    run: "forM (grid_threads g d) (\<lambda>(b, t). addBiasEfficient b d t bias (int M) (int N)) out = Inr out'"
    and len: "length out' = length out"
    and val: "\<forall>k < length out. out' ! k =
              (if hits d M N (grid_threads g d) k then out ! k + bias ! (k mod N) else out ! k)"
    by blast
  have "out' = map (\<lambda>k. if k < M * N then out ! k + bias ! (k mod N) else out ! k) [0 ..< length out]"
  proof (rule nth_equalityI)
    show "length out' = length (map (\<lambda>k. if k < M * N then out ! k + bias ! (k mod N) else out ! k) [0 ..< length out])"
      using len by simp
  next
    fix k assume "k < length out'"
    then have k: "k < length out" using len by simp
    with val have "out' ! k = (if hits d M N (grid_threads g d) k then out ! k + bias ! (k mod N) else out ! k)"
      by blast
    then show "out' ! k = map (\<lambda>k. if k < M * N then out ! k + bias ! (k mod N) else out ! k) [0 ..< length out] ! k"
      using k by (simp only: hits_grid[OF z cover] nth_map_upt add_0 minus_nat.diff_0)
  qed
  moreover have "launch_addBiasEfficient g d bias (int M) (int N) out = 
     forM (grid_threads g d) (\<lambda>(b, t). addBiasEfficient b d t bias (int M) (int N)) out"
    unfolding launch_addBiasEfficient_def using v by (simp only: if_True)
  ultimately show ?thesis using run by (simp only:)
qed

lemma forM_append:
  "forM (xs @ ys) body s = (case forM xs body s of Inl e \<Rightarrow> Inl e | Inr s' \<Rightarrow> forM ys body s')"
  by (induction xs arbitrary: s) (auto split: sum.splits)

lemma add_bias_elems:
  assumes "i < length out" "n \<le> length (out ! i)" "n \<le> length bias"
  shows "forM [0 ..< n] (add_bias_elem bias i) out =
           Inr (out[i := map (\<lambda>j. if j < n then out ! i ! j + bias ! j else out ! i ! j)
                            [0 ..< length (out ! i)]])"
  using assms
proof (induction n)
  case 0
  then show ?case by (simp add: map_nth)
next
  case (Suc n)
  let ?row = "map (\<lambda>j. if j < n then out ! i ! j + bias ! j else out ! i ! j) [0 ..< length (out ! i)]"
  have pre: "forM [0 ..< n] (add_bias_elem bias i) out = Inr (out[i := ?row])"
    using Suc by simp
  have step: "add_bias_elem bias i n (out[i := ?row]) =
      Inr (out[i := map (\<lambda>j. if j < Suc n then out ! i ! j + bias ! j else out ! i ! j)
                            [0 ..< length (out ! i)]])"
    using Suc.prems
    by (auto simp: add_bias_elem_def intro!: arg_cong[where f = "list_update out i"] nth_equalityI
             simp: nth_list_update less_Suc_eq)
  show ?case by (simp add: forM_append pre step)
qed

lemma add_bias_row_correct:
  assumes "i < length out" "length (out ! i) = N" "N \<le> length bias"
  shows "add_bias_row bias (int N) i out = Inr (out[i := map2 (+) (out ! i) bias])"
proof -
  have "map (\<lambda>j. if j < N then out ! i ! j + bias ! j else out ! i ! j) [0 ..< length (out ! i)]
        = map2 (+) (out ! i) bias"
    using assms by (auto intro!: nth_equalityI)
  then show ?thesis
    using add_bias_elems[of i out N bias] assms by (simp add: add_bias_row_def int_range_def)
qed

lemma add_bias_rows_correct:
  assumes "distinct rows" "\<forall>i \<in> set rows. i < length out \<and> length (out ! i) = N" "N \<le> length bias"
  shows "add_bias_rows rows bias (int N) out =
           Inr (map (\<lambda>i. if i \<in> set rows then map2 (+) (out ! i) bias else out ! i) [0 ..< length out])"
  using assms
proof (induction rows arbitrary: out)
  case Nil
  then show ?case by (simp add: add_bias_rows_def map_nth)
next
  case (Cons i rows)
  define out1 where "out1 = out[i := map2 (+) (out ! i) bias]"
  have step: "add_bias_row bias (int N) i out = Inr out1"
    unfolding out1_def using Cons.prems by (intro add_bias_row_correct) auto
  have ih: "add_bias_rows rows bias (int N) out1 =
           Inr (map (\<lambda>i. if i \<in> set rows then map2 (+) (out1 ! i) bias else out1 ! i) [0 ..< length out1])"
    using Cons.prems by (intro Cons.IH) (auto simp: out1_def nth_list_update)
  have "map (\<lambda>i. if i \<in> set rows then map2 (+) (out1 ! i) bias else out1 ! i) [0 ..< length out1]
      = map (\<lambda>k. if k \<in> set (i # rows) then map2 (+) (out ! k) bias else out ! k) [0 ..< length out]"
    using Cons.prems by (auto simp: out1_def nth_list_update intro!: nth_equalityI)
  then show ?case using step ih by (simp add: add_bias_rows_def)
qed

lemma add_bias_host_correct:
  assumes "\<forall>row \<in> set out. length row = N" "N \<le> length bias"
  shows "add_bias_host bias (int (length out)) (int N) out = Inr (map (\<lambda>row. map2 (+) row bias) out)"
proof -
  have "add_bias_rows [0 ..< length out] bias (int N) out =
           Inr (map (\<lambda>i. if i \<in> set [0 ..< length out] then map2 (+) (out ! i) bias else out ! i) [0 ..< length out])"
    using assms by (intro add_bias_rows_correct) auto
  moreover have "map (\<lambda>i. if i \<in> set [0 ..< length out] then map2 (+) (out ! i) bias else out ! i) [0 ..< length out]
     = map (\<lambda>row. map2 (+) row bias) out"
    by (auto intro!: nth_equalityI)
  ultimately show ?thesis by (simp add: add_bias_host_def int_range_def)
qed

lemma is_matrix_row: "is_matrix m n xs \<Longrightarrow> i < m \<Longrightarrow> length (xs ! i) = n"
  by (simp add: is_matrix_def list_all_length)

lemma is_matrix_length: "is_matrix m n xs \<Longrightarrow> length xs = m"
  by (simp add: is_matrix_def)

lemma length_concat_rect: "list_all (\<lambda>row. length row = n) xs \<Longrightarrow> length (concat xs) = length xs * n"
  by (induction xs) auto

lemma concat_nth_rect:
  "list_all (\<lambda>row. length row = n) xs \<Longrightarrow> i < length xs \<Longrightarrow> j < n \<Longrightarrow> concat xs ! (i * n + j) = xs ! i ! j"
proof (induction xs arbitrary: i)
  case Nil
  then show ?case by simp
next
  case (Cons x xs)
  show ?case
  proof (cases i)
    case 0
    then show ?thesis using Cons.prems by (simp add: nth_append)
  next
    case (Suc i')
    then show ?thesis using Cons.prems Cons.IH[of i'] by (simp add: nth_append)
  qed
qed

lemma map2_as_upt:
  "length xs = k \<Longrightarrow> length ys = k \<Longrightarrow> map (\<lambda>l. f (xs ! l) (ys ! l)) [0 ..< k] = map2 f xs ys"
  by (auto intro!: nth_equalityI)

lemma take_drop_concat_rect:
  "list_all (\<lambda>row. length row = n) xs \<Longrightarrow> i < length xs \<Longrightarrow> take n (drop (i * n) (concat xs)) = xs ! i"
proof (induction xs arbitrary: i)
  case Nil
  then show ?case by simp
next
  case (Cons x xs)
  show ?case
  proof (cases i)
    case 0
    then show ?thesis using Cons.prems by simp
  next
    case (Suc i')
    then show ?thesis using Cons.prems Cons.IH[of i'] by simp
  qed
qed

lemma fold_max_ge: "v \<le> fold max vs (v::real)" 
  by (induction vs arbitrary: v) (auto intro: order_trans[OF max.cobounded2])

lemma sum_list_pos_real:
  "xs \<noteq> [] \<Longrightarrow> \<forall>e \<in> set xs. 0 < e \<Longrightarrow> 0 < sum_list (xs::real list)"
proof (induction xs)
  case Nil
  then show ?case by simp
next
  case (Cons x xs)
  have "0 \<le> sum_list xs" using Cons.prems by (intro sum_list_nonneg) auto
  then show ?case using Cons.prems by auto
qed

lemma sum_list_div_const: "sum_list (map (\<lambda>e. e / c) xs) = sum_list xs / (c::real)"
  by (induction xs) (auto simp: add_divide_distrib)

lemma softmax_distribution:
  assumes "input \<noteq> []"
  shows "\<exists>p. softmax input = Inr p \<and> length p = length input \<and> (\<forall>v \<in> set p. 0 < v) \<and> sum_list p = 1"
proof -
  obtain v vs where i: "input = v # vs" using assms by (cases input) auto
  define rowMax where "rowMax = fold max vs v"
  define exps where "exps = map (\<lambda>x. exp (x - rowMax)) input"
  have pos: "\<forall>e \<in> set exps. 0 < e" by (auto simp: exps_def)
  have "exps \<noteq> []" using assms by (simp add: exps_def)
  then have spos: "0 < sum_list exps" using pos
    by (intro sum_list_pos_real)
  have sm: "softmax input = Inr (map (\<lambda>e. e / sum_list exps) exps)"
    by (simp add: softmax_def i Let_def exps_def rowMax_def)
  have "sum_list (map (\<lambda>e. e / sum_list exps) exps) = sum_list exps / sum_list exps"
    by (rule sum_list_div_const)
  then have one: "sum_list (map (\<lambda>e. e / sum_list exps) exps) = 1" using spos by simp
  show ?thesis using sm one pos spos by (auto simp: exps_def)
qed

lemma exp_minus_one_bounds: "367879 / 1000000 \<le> exp (- 1 :: real) \<and> exp (- 1 :: real) \<le> 367881 / 1000000"
proof -
  obtain t :: real where t: "\<bar>t\<bar> \<le> \<bar>- 1 :: real\<bar>"
    and e: "exp (- 1 :: real) = (\<Sum>m<10. ((- 1) ^ m) / fact m) + (exp t / fact 10) * (- 1) ^ 10"
    using Maclaurin_exp_le[of "- 1" 10] by blast
  have s: "(\<Sum>m<10. ((- 1 :: real) ^ m) / fact m) = 16687 / 45360"
    by (simp add: lessThan_nat_numeral lessThan_Suc fact_numeral)
  have "t \<le> 1" using t by simp
  then have "exp t \<le> exp 1" by simp
  then have up: "exp t \<le> 3" using exp_le by linarith
  have low: "0 \<le> exp t" by simp
  have f: "fact 10 = (3628800 :: real)" by (simp add: fact_numeral)
  have "exp (- 1 :: real) = 16687 / 45360 + exp t / 3628800"
    using e s f by simp
  then show ?thesis using up low by linarith
qed


lemma softmax_123:
  "\<exists>p0 p1 p2. softmax [1, 2, 3] = Inr [p0, p1, p2] \<and>
     \<bar>p0 - 900 / 10000\<bar> < 5 / 100000 \<and> \<bar>p1 - 2447 / 10000\<bar> < 5 / 100000 \<and> \<bar>p2 - 6652 / 10000\<bar> < 5 / 100000"
proof -
  define u :: real where "u = exp (- 1)"
  define w :: real where "w = u * u"
  have lo: "367879 / 1000000 \<le> u" and hi: "u \<le> 367881 / 1000000"
    using exp_minus_one_bounds by (simp_all add: u_def)
  have u2: "exp (- 2 :: real) = w"
    unfolding u_def w_def by (simp add: exp_add[symmetric])
  have upos: "0 < u" by (simp add: u_def)
  have "(367879 / 1000000) * (367879 / 1000000) \<le> u * u"
    using lo upos by (intro mult_mono) auto
  then have lo2: "135334 / 1000000 \<le> w" by (simp add: w_def)
  have "u * u \<le> (367881 / 1000000) * (367881 / 1000000)"
    using hi upos by (intro mult_mono) auto
  then have hi2: "w \<le> 135337 / 1000000" by (simp add: w_def)
  define S where "S = w + (u + 1)"
  have Spos: "0 < S" using lo lo2 by (simp add: S_def)
  have sm: "softmax [1, 2, 3] = Inr [w / S, u / S, 1 / S]"
    by (simp add: softmax_def Let_def u2 S_def u_def)
  have b0: "\<bar>w / S - 900 / 10000\<bar> < 5 / 100000"
  proof -
    have "w < (9005 / 100000) * S"
      unfolding S_def using lo hi lo2 hi2 by (simp add: algebra_simps)
    moreover have "(8995 / 100000) * S < w"
      unfolding S_def using lo hi lo2 hi2 by (simp add: algebra_simps)
    ultimately have "w / S < 9005 / 100000" "8995 / 100000 < w / S"
      using Spos by (simp_all add: pos_divide_less_eq pos_less_divide_eq)
    then show ?thesis by linarith
  qed
  have b1: "\<bar>u / S - 2447 / 10000\<bar> < 5 / 100000"
  proof -
    have "u < (24475 / 100000) * S"
      unfolding S_def using lo hi lo2 hi2 by (simp add: algebra_simps)
    moreover have "(24465 / 100000) * S < u"
      unfolding S_def using lo hi lo2 hi2 by (simp add: algebra_simps)
    ultimately have "u / S < 24475 / 100000" "24465 / 100000 < u / S"
      using Spos by (simp_all add: pos_divide_less_eq pos_less_divide_eq)
    then show ?thesis by linarith
  qed
  have b2: "\<bar>1 / S - 6652 / 10000\<bar> < 5 / 100000"
  proof -
    have "1 < (66525 / 100000) * S"
      unfolding S_def using lo hi lo2 hi2 by (simp add: algebra_simps)
    moreover have "(66515 / 100000) * S < 1"
      unfolding S_def using lo hi lo2 hi2 by (simp add: algebra_simps)
    ultimately have "1 / S < 66525 / 100000" "66515 / 100000 < 1 / S"
      using Spos by (simp_all add: pos_divide_less_eq pos_less_divide_eq)
    then show ?thesis by linarith
  qed
  show ?thesis using sm b0 b1 b2 by blast
qed

lemma concat_add_bias:
  assumes "list_all (\<lambda>row. length row = N) out" "N \<le> length bias"
  shows "map (\<lambda>k. if k < length out * N then concat out ! k + bias ! (k mod N) else concat out ! k)
              [0 ..< length (concat out)]
         = concat (map (\<lambda>row. map2 (+) row bias) out)"
proof (rule nth_equalityI)
  have r: "list_all (\<lambda>row. length row = N) (map (\<lambda>row. map2 (+) row bias) out)"
    using assms by (simp add: list_all_iff)
  show len: "length (map (\<lambda>k. if k < length out * N then concat out ! k + bias ! (k mod N) else concat out ! k)
              [0 ..< length (concat out)]) = length (concat (map (\<lambda>row. map2 (+) row bias) out))"
    using length_concat_rect[OF assms(1)] length_concat_rect[OF r] by simp
  fix k assume "k < length (map (\<lambda>k. if k < length out * N then concat out ! k + bias ! (k mod N) else concat out ! k)
              [0 ..< length (concat out)])"
  then have k: "k < length out * N" using length_concat_rect[OF assms(1)] by simp
  then have N: "0 < N" by (cases N) auto
  define i j where "i = k div N" and "j = k mod N"
  have i: "i < length out" using k N by (simp add: i_def less_mult_imp_div_less)
  have j: "j < N" using N by (simp add: j_def)
  have kk: "k = i * N + j" by (simp add: i_def j_def)
  have rowlen: "length (out ! i) = N" using assms(1) i by (simp add: list_all_length)
  have a: "concat out ! k = out ! i ! j"
    unfolding kk using concat_nth_rect[OF assms(1) i j] .
  have b: "concat (map (\<lambda>row. map2 (+) row bias) out) ! k = map (\<lambda>row. map2 (+) row bias) out ! i ! j"
    unfolding kk using concat_nth_rect[OF r _ j, of i] i by simp
  have c: "map (\<lambda>row. map2 (+) row bias) out ! i ! j = out ! i ! j + bias ! j"
    using i j rowlen assms(2) by simp
  show "map (\<lambda>k. if k < length out * N then concat out ! k + bias ! (k mod N) else concat out ! k)
              [0 ..< length (concat out)] ! k = concat (map (\<lambda>row. map2 (+) row bias) out) ! k"
    using k length_concat_rect[OF assms(1)] a b c by (simp add: j_def)
qed

section \<open>The vendor product, the queued operations and the runs of \<^verbatim>\<open>linearCUBLAS\<close>\<close>

lemma stored_size_full: "0 < r \<Longrightarrow> 0 < c \<Longrightarrow> stored_size r c r = c * r"
  by (cases c) (simp_all add: stored_size_def)

lemma dotSIMD_as_upt:
  "length a = k \<Longrightarrow> length b = k \<Longrightarrow> sum_list (map (\<lambda>l. a ! l * b ! l) [0 ..< k]) = dotSIMD a b"
  by (simp add: dotSIMD_def map2_as_upt)

lemma sgemm_entry_dot:
  fixes weights input :: "('a::semiring_1) list list"
  assumes w: "is_matrix N K weights" and i: "is_matrix M K input" and q: "q < N" and r: "r < M"
  shows "sgemm_entry True False K 1 (concat weights) K (concat input) K 0 c q r
           = dotSIMD (weights ! q) (input ! r)"
proof -
  have wl: "list_all (\<lambda>row. length row = K) weights" "length weights = N"
    and il: "list_all (\<lambda>row. length row = K) input" "length input = M"
    using w i by (simp_all add: is_matrix_def)
  have "map (\<lambda>l. concat weights ! (l + q * K) * concat input ! (l + r * K)) [0 ..< K]
      = map (\<lambda>l. weights ! q ! l * input ! r ! l) [0 ..< K]"
  proof (rule map_cong[OF refl])
    fix l assume "l \<in> set [0 ..< K]"
    then have l: "l < K" by simp
    have "concat weights ! (q * K + l) = weights ! q ! l"
      using concat_nth_rect[OF wl(1) _ l, of q] q wl(2) by simp
    moreover have "concat input ! (r * K + l) = input ! r ! l"
      using concat_nth_rect[OF il(1) _ l, of r] r il(2) by simp
    ultimately show "concat weights ! (l + q * K) * concat input ! (l + r * K) = weights ! q ! l * input ! r ! l"
      by (simp add: add.commute)
  qed
  then have "sum_list (map (\<lambda>l. concat weights ! (l + q * K) * concat input ! (l + r * K)) [0 ..< K])
      = sum_list (map (\<lambda>l. weights ! q ! l * input ! r ! l) [0 ..< K])"
    by (rule arg_cong)
  also have "\<dots> = dotSIMD (weights ! q) (input ! r)"
    using dotSIMD_as_upt[of "weights ! q" K "input ! r"] is_matrix_row[OF w q] is_matrix_row[OF i r]
    by simp
  finally have "sum_list (map (\<lambda>l. concat weights ! (l + q * K) * concat input ! (l + r * K)) [0 ..< K])
      = dotSIMD (weights ! q) (input ! r)" .
  then show ?thesis by (simp add: sgemm_entry_def)
qed

lemma product_rows_matrix:
  "length input = M \<Longrightarrow> length weights = N \<Longrightarrow> is_matrix M N (product_rows input weights)"
  by (simp add: is_matrix_def product_rows_def list_all_iff)

lemma cublasSgemm_buffers_correct:
  fixes weights input :: "('a::semiring_1) list list"
  assumes w: "is_matrix N K weights" and i: "is_matrix M K input"
    and pos: "0 < K" "0 < N" "0 < M" and c: "length C = M * N"
  shows "cublasSgemm_buffers True False (int N) (int M) (int K) 1 (concat weights) (int K)
           (concat input) (int K) 0 C (int N)
         = Inr (concat (product_rows input weights))"
proof -
  have wl: "list_all (\<lambda>row. length row = K) weights" "length weights = N"
    and il: "list_all (\<lambda>row. length row = K) input" "length input = M"
    using w i by (simp_all add: is_matrix_def)
  have ok: "sgemm_params_ok True False (int N) (int M) (int K) (int K) (int K) (int N)"
    using pos by (simp add: sgemm_params_ok_def)
  have la: "length (concat weights) = N * K" and lb: "length (concat input) = M * K"
    using length_concat_rect[OF wl(1)] length_concat_rect[OF il(1)] wl(2) il(2) by simp_all
  have sizes: "\<not> (length (concat weights) < stored_size K N K
            \<or> length (concat input) < stored_size K M K
            \<or> length C < stored_size N M N)"
    using pos la lb c by (simp add: stored_size_full)
  have pr: "is_matrix M N (product_rows input weights)"
    using product_rows_matrix[OF il(2) wl(2)] .
  then have prl: "list_all (\<lambda>row. length row = N) (product_rows input weights)"
    "length (product_rows input weights) = M"
    by (simp_all add: is_matrix_def)
  have "map (\<lambda>p. if p mod N < N \<and> p div N < M
                  then sgemm_entry True False K 1 (concat weights) K (concat input) K 0 (C ! p) (p mod N) (p div N)
                  else C ! p) [0 ..< length C]
        = concat (product_rows input weights)"
  proof (rule nth_equalityI)
    show "length (map (\<lambda>p. if p mod N < N \<and> p div N < M
                  then sgemm_entry True False K 1 (concat weights) K (concat input) K 0 (C ! p) (p mod N) (p div N)
                  else C ! p) [0 ..< length C]) = length (concat (product_rows input weights))"
      using length_concat_rect[OF prl(1)] prl(2) c by simp
  next
    fix p assume "p < length (map (\<lambda>p. if p mod N < N \<and> p div N < M
                  then sgemm_entry True False K 1 (concat weights) K (concat input) K 0 (C ! p) (p mod N) (p div N)
                  else C ! p) [0 ..< length C])"
    then have p: "p < M * N" using c by simp
    define r q where "r = p div N" and "q = p mod N"
    have r: "r < M" using p pos by (simp add: r_def less_mult_imp_div_less)
    have q: "q < N" using pos by (simp add: q_def)
    have pp: "p = r * N + q" by (simp add: r_def q_def)
    have "concat (product_rows input weights) ! (r * N + q) = product_rows input weights ! r ! q"
      using concat_nth_rect[OF prl(1) _ q, of r] r prl(2) by simp
    also have "\<dots> = dotSIMD (weights ! q) (input ! r)"
      using r q il(2) wl(2) by (simp add: product_rows_def)
    finally have rhs: "concat (product_rows input weights) ! p = dotSIMD (weights ! q) (input ! r)"
      by (simp add: pp)
    have "sgemm_entry True False K 1 (concat weights) K (concat input) K 0 (C ! p) q r
           = dotSIMD (weights ! q) (input ! r)"
      by (rule sgemm_entry_dot[OF w i q r])
    then show "map (\<lambda>p. if p mod N < N \<and> p div N < M
                  then sgemm_entry True False K 1 (concat weights) K (concat input) K 0 (C ! p) (p mod N) (p div N)
                  else C ! p) [0 ..< length C] ! p = concat (product_rows input weights) ! p"
      using p c r q rhs by (simp add: r_def q_def)
  qed
  then show ?thesis
    unfolding cublasSgemm_buffers_def nat_int using ok sizes by simp
qed

lemma reassemble_row_ok:
  assumes "is_matrix M N rows" "n < M" "length out = M" "M * N < 2 ^ 31"
  shows "reassemble_row (concat rows) (int N) n out = Inr (out[n := rows ! n])"
proof -
  have rl: "list_all (\<lambda>row. length row = N) rows" "length rows = M"
    using assms(1) by (simp_all add: is_matrix_def)
  have hi: "(n + 1) * N \<le> M * N" using assms(2) by (intro mult_le_mono1) simp
  have lo: "n * N \<le> (n + 1) * N" by simp
  have ok: "int32_ok (int n * int N)" "int32_ok ((int n + 1) * int N)"
  proof -
    have "n * N < 2 ^ 31" "(n + 1) * N < 2 ^ 31" using hi lo assms(4) by linarith+
    from int32_ok_nat[OF this(1)] int32_ok_nat[OF this(2)]
    show "int32_ok (int n * int N)" "int32_ok ((int n + 1) * int N)" by (simp_all add: algebra_simps)
  qed
  have len: "length (concat rows) = M * N" using length_concat_rect[OF rl(1)] rl(2) by simp
  have inb: "\<not> int (length (concat rows)) < (int n + 1) * int N"
  proof -
    have "int ((n + 1) * N) \<le> int (M * N)" using hi by (simp only: of_nat_le_iff)
    then show ?thesis unfolding len by (simp add: algebra_simps)
  qed
  have "0 \<le> int (n * N)" by simp
  then have nn1: "\<not> int n * int N < 0" by (simp only: of_nat_mult not_less)
  have "int (n * N) \<le> int ((n + 1) * N)" using lo by (simp only: of_nat_le_iff)
  then have nn2: "\<not> (int n + 1) * int N < int n * int N" by (simp add: algebra_simps)
  note nn = nn1 nn2
  have d: "nat ((int n + 1) * int N - int n * int N) = N" by (simp add: algebra_simps)
  have l: "nat (int n * int N) = n * N" by (simp add: nat_mult_distrib)
  have row: "take N (drop (n * N) (concat rows)) = rows ! n"
    using take_drop_concat_rect[OF rl(1), of n] assms(2) rl(2) by simp
  show ?thesis
    unfolding reassemble_row_def Let_def using ok inb nn assms(2,3) by (simp only: d l row) simp
qed

lemma reassemble_prefix:
  assumes "is_matrix M N rows" "M * N < 2 ^ 31" "n \<le> M"
  shows "forM [0 ..< n] (reassemble_row (concat rows) (int N)) (replicate M [])
           = Inr (map (\<lambda>i. if i < n then rows ! i else []) [0 ..< M])"
  using assms(3)
proof (induction n)
  case 0
  show ?case by (auto intro!: nth_equalityI)
next
  case (Suc n)
  let ?cur = "map (\<lambda>i. if i < n then rows ! i else []) [0 ..< M]"
  have pre: "forM [0 ..< n] (reassemble_row (concat rows) (int N)) (replicate M []) = Inr ?cur"
    using Suc by simp
  have step: "reassemble_row (concat rows) (int N) n ?cur = Inr (?cur[n := rows ! n])"
    using Suc.prems by (intro reassemble_row_ok[OF assms(1) _ _ assms(2)]) simp_all
  have upd: "?cur[n := rows ! n] = map (\<lambda>i. if i < Suc n then rows ! i else []) [0 ..< M]"
    using Suc.prems by (auto intro!: nth_equalityI simp: nth_list_update less_Suc_eq)
  show ?case by (simp add: forM_append pre step upd)
qed

lemma reassemble_rows:
  assumes "is_matrix M N rows" "M * N < 2 ^ 31"
  shows "forM (int_range (int M)) (reassemble_row (concat rows) (int N)) (replicate M []) = Inr rows"
proof -
  have "length rows = M" using assms(1) by (simp add: is_matrix_def)
  then have "map (\<lambda>i. if i < M then rows ! i else []) [0 ..< M] = rows"
    by (auto intro!: nth_equalityI)
  then show ?thesis using reassemble_prefix[OF assms, of M] by (simp add: int_range_def)
qed

lemma buffer_append_new:
  "i < length bs \<Longrightarrow> buffer (m @ bs) (length m + i) = (case bs ! i of None \<Rightarrow> Inl (OutOfBounds DevicePointer) | Some b \<Rightarrow> Inr b)"
  by (simp add: buffer_def nth_append)

lemma exec_copy_in:
  assumes "buffer m p = Inr b" "length src \<le> length b"
  shows "exec_op (CopyH2D p src) (m, host) = Inr (m[p := Some (src @ drop (length src) b)], host)"
  using assms by (simp add: exec_op_def)

lemma exec_sgemm:
  assumes "buffer m pa = Inr A" "buffer m pb = Inr B" "buffer m pc = Inr C"
    "cublasSgemm_buffers ta tb gm gn gk alpha A lda B ldb beta C ldc = Inr C'"
  shows "exec_op (Sgemm ta tb gm gn gk alpha pa lda pb ldb beta pc ldc) (m, host) = Inr (m[pc := Some C'], host)"
  using assms by (simp add: exec_op_def)

lemma exec_kernel:
  assumes "buffer m pout = Inr out" "buffer m pbias = Inr bias"
    "launch_addBiasEfficient g b bias batchSize outputDim out = Inr out'"
  shows "exec_op (AddBiasKernel g b pout pbias batchSize outputDim) (m, host) = Inr (m[pout := Some out'], host)"
  using assms by (simp add: exec_op_def)

lemma exec_copy_out:
  assumes "buffer m p = Inr b" "count \<le> length b" "count \<le> length host"
  shows "exec_op (CopyD2H p count) (m, host) = Inr (m, take count b @ drop count host)"
  using assms by (simp add: exec_op_def)

lemma biased_matrix: "is_matrix M N rows \<Longrightarrow> N \<le> length bias \<Longrightarrow> is_matrix M N (biased bias rows)"
  by (simp add: is_matrix_def biased_def list_all_iff)

lemma launch_on_flat:
  fixes rows :: "('a::plus) list list"
  assumes m: "is_matrix M N rows" and b: "N \<le> length bias" and sz: "M * N < 2 ^ 31"
    and v: "valid_launch g d" and z: "dim_z g = 1" "dim_z d = 1"
    and cover: "M \<le> dim_y g * dim_y d" "N \<le> dim_x g * dim_x d"
    and nowrap: "dim_y g * dim_y d \<le> 2 ^ 31" "dim_x g * dim_x d \<le> 2 ^ 31"
  shows "launch_addBiasEfficient g d bias (int M) (int N) (concat rows) = Inr (concat (biased bias rows))"
proof -
  have len: "length rows = M" and rl: "list_all (\<lambda>row. length row = N) rows"
    using m by (simp_all add: is_matrix_def)
  have flat: "length (concat rows) = M * N" using length_concat_rect[OF rl] len by simp
  have "launch_addBiasEfficient g d bias (int M) (int N) (concat rows) =
           Inr (map (\<lambda>k. if k < M * N then concat rows ! k + bias ! (k mod N) else concat rows ! k)
                  [0 ..< length (concat rows)])"
    using b sz flat by (intro launch_addBiasEfficient_correct[OF v z cover nowrap]) simp_all
  then show ?thesis using concat_add_bias[OF rl b] len by (simp add: biased_def)
qed

lemma round_up_16:
  fixes n :: nat
  shows "n \<le> (n + 15) div 16 * 16" "(n + 15) div 16 * 16 \<le> n + 15"
proof -
  have e: "(n + 15) div 16 * 16 + (n + 15) mod 16 = n + 15" by (rule div_mult_mod_eq)
  have m: "(n + 15) mod 16 < 16" by simp
  show "n \<le> (n + 15) div 16 * 16" using e m by linarith
  show "(n + 15) div 16 * 16 \<le> n + 15" using e by linarith
qed

lemma source_launch_config:
  assumes "0 < M" "0 < N" "M \<le> 1048560" "N + 15 < 2 ^ 31"
  shows "valid_launch \<lparr>dim_x = (N + 15) div 16, dim_y = (M + 15) div 16, dim_z = 1\<rparr> threads"
    and "M \<le> dim_y \<lparr>dim_x = (N + 15) div 16, dim_y = (M + 15) div 16, dim_z = 1\<rparr> * dim_y threads"
    and "N \<le> dim_x \<lparr>dim_x = (N + 15) div 16, dim_y = (M + 15) div 16, dim_z = 1\<rparr> * dim_x threads"
    and "dim_y \<lparr>dim_x = (N + 15) div 16, dim_y = (M + 15) div 16, dim_z = 1\<rparr> * dim_y threads \<le> 2 ^ 31"
    and "dim_x \<lparr>dim_x = (N + 15) div 16, dim_y = (M + 15) div 16, dim_z = 1\<rparr> * dim_x threads \<le> 2 ^ 31"
proof -
  have a: "0 < (N + 15) div 16" "(N + 15) div 16 < 2147483648" "0 < (M + 15) div 16" "(M + 15) div 16 \<le> 65535"
    "M \<le> (M + 15) div 16 * 16" "N \<le> (N + 15) div 16 * 16"
    "(M + 15) div 16 * 16 \<le> 2147483648" "(N + 15) div 16 * 16 \<le> 2147483648"
  proof -
    have n: "N + 15 < 2147483648" using assms(4) by simp
    note rn = round_up_16[of N] and rm = round_up_16[of M]
    show "M \<le> (M + 15) div 16 * 16" "N \<le> (N + 15) div 16 * 16" using rn rm by simp_all
    show "(M + 15) div 16 * 16 \<le> 2147483648" using rm(2) assms(3) by linarith
    show "(N + 15) div 16 * 16 \<le> 2147483648" using rn(2) n by linarith
    show "0 < (N + 15) div 16" using rn(1) assms(2) by (cases "(N + 15) div 16") simp_all
    show "0 < (M + 15) div 16" using rm(1) assms(1) by (cases "(M + 15) div 16") simp_all
    show "(N + 15) div 16 < 2147483648" using rn(2) n by linarith
    show "(M + 15) div 16 \<le> 65535" using rm(2) assms(3) by linarith
  qed
  show "valid_launch \<lparr>dim_x = (N + 15) div 16, dim_y = (M + 15) div 16, dim_z = 1\<rparr> threads"
    using a by (simp add: valid_launch_def threads_def)
  show "M \<le> dim_y \<lparr>dim_x = (N + 15) div 16, dim_y = (M + 15) div 16, dim_z = 1\<rparr> * dim_y threads"
    and "N \<le> dim_x \<lparr>dim_x = (N + 15) div 16, dim_y = (M + 15) div 16, dim_z = 1\<rparr> * dim_x threads"
    and "dim_y \<lparr>dim_x = (N + 15) div 16, dim_y = (M + 15) div 16, dim_z = 1\<rparr> * dim_y threads \<le> 2 ^ 31"
    and "dim_x \<lparr>dim_x = (N + 15) div 16, dim_y = (M + 15) div 16, dim_z = 1\<rparr> * dim_x threads \<le> 2 ^ 31"
    using a by (simp_all add: threads_def)
qed


lemma buffer_new0: "buffer (m @ [Some a, b, c, e]) (length m) = Inr a"
  and buffer_new1: "buffer (m @ [a', Some b', c', e']) (Suc (length m)) = Inr b'"
  and buffer_new2: "buffer (m @ [a'', b'', Some c'', e'']) (Suc (Suc (length m))) = Inr c''"
  and buffer_new3: "buffer (m @ [a3, b3, c3, Some e3]) (Suc (Suc (Suc (length m)))) = Inr e3"
  by (simp_all add: buffer_def nth_append)

lemma exec_chain:
  fixes input weights :: "('a::semiring_1) list list"
  assumes i: "is_matrix M K input" and w: "is_matrix N K weights" and b: "N \<le> length bias"
    and pos: "0 < M" "0 < K" "0 < N" and sz: "M * N < 2 ^ 31" "M \<le> 1048560" "N + 15 < 2 ^ 31"
    and la: "length A = M * K" and lb: "length B = N * K" and lc: "length C = length bias"
    and lo: "length out = M * N" and lh: "length host = M * N"
  shows "forM [CopyH2D (length m) (concat input),
               CopyH2D (Suc (length m)) (concat weights),
               CopyH2D (Suc (Suc (length m))) bias,
               Sgemm True False (int N) (int M) (int K) 1 (Suc (length m)) (int K) (length m) (int K)
                 0 (Suc (Suc (Suc (length m)))) (int N),
               AddBiasKernel \<lparr>dim_x = (N + 15) div 16, dim_y = (M + 15) div 16, dim_z = 1\<rparr> threads
                 (Suc (Suc (Suc (length m)))) (Suc (Suc (length m))) (int M) (int N),
               CopyD2H (Suc (Suc (Suc (length m)))) (M * N)]
           exec_op (m @ [Some A, Some B, Some C, Some out], host)
         = Inr (m @ [Some (concat input), Some (concat weights), Some bias,
                     Some (concat (biased bias (product_rows input weights)))],
                concat (biased bias (product_rows input weights)))"
proof -
  have il: "list_all (\<lambda>row. length row = K) input" "length input = M"
    and wl: "list_all (\<lambda>row. length row = K) weights" "length weights = N"
    using i w by (simp_all add: is_matrix_def)
  have fi: "length (concat input) = M * K" and fw: "length (concat weights) = N * K"
    using length_concat_rect[OF il(1)] length_concat_rect[OF wl(1)] il(2) wl(2) by simp_all
  let ?P = "product_rows input weights"
  let ?R = "biased bias ?P"
  have pm: "is_matrix M N ?P" using product_rows_matrix[OF il(2) wl(2)] .
  have rm: "is_matrix M N ?R" using biased_matrix[OF pm b] .
  have lr: "length (concat ?R) = M * N"
    using length_concat_rect[of N ?R] rm by (simp add: is_matrix_def)
  have e1: "exec_op (CopyH2D (length m) (concat input)) (m @ [Some A, Some B, Some C, Some out], host)
      = Inr (m @ [Some (concat input), Some B, Some C, Some out], host)"
    using exec_copy_in[where m = "m @ [Some A, Some B, Some C, Some out]" and p = "length m" and b = A
        and src = "concat input" and host = host] fi la
    by (simp add: buffer_new0)
  have e2: "exec_op (CopyH2D (Suc (length m)) (concat weights))
        (m @ [Some (concat input), Some B, Some C, Some out], host)
      = Inr (m @ [Some (concat input), Some (concat weights), Some C, Some out], host)"
    using exec_copy_in[where m = "m @ [Some (concat input), Some B, Some C, Some out]" and p = "Suc (length m)"
        and b = B and src = "concat weights" and host = host] fw lb
    by (simp add: buffer_new1 list_update_append)
  have e3: "exec_op (CopyH2D (Suc (Suc (length m))) bias)
        (m @ [Some (concat input), Some (concat weights), Some C, Some out], host)
      = Inr (m @ [Some (concat input), Some (concat weights), Some bias, Some out], host)"
    using exec_copy_in[where m = "m @ [Some (concat input), Some (concat weights), Some C, Some out]"
        and p = "Suc (Suc (length m))" and b = C and src = bias and host = host] lc
    by (simp add: buffer_new2 list_update_append)
  have g: "cublasSgemm_buffers True False (int N) (int M) (int K) 1 (concat weights) (int K)
           (concat input) (int K) 0 out (int N) = Inr (concat ?P)"
    using cublasSgemm_buffers_correct[OF w i pos(2,3,1) lo] .
  have e4: "exec_op (Sgemm True False (int N) (int M) (int K) 1 (Suc (length m)) (int K) (length m) (int K)
                 0 (Suc (Suc (Suc (length m)))) (int N))
        (m @ [Some (concat input), Some (concat weights), Some bias, Some out], host)
      = Inr (m @ [Some (concat input), Some (concat weights), Some bias, Some (concat ?P)], host)"
    using exec_sgemm[where m = "m @ [Some (concat input), Some (concat weights), Some bias, Some out]"
        and host = host, OF buffer_new1 buffer_new0 buffer_new3 g]
    by (simp add: list_update_append)
  have k: "launch_addBiasEfficient \<lparr>dim_x = (N + 15) div 16, dim_y = (M + 15) div 16, dim_z = 1\<rparr> threads
             bias (int M) (int N) (concat ?P) = Inr (concat ?R)"
    using source_launch_config[OF pos(1,3) sz(2,3)]
    by (intro launch_on_flat[OF pm b sz(1)]) (simp_all add: threads_def)
  have e5: "exec_op (AddBiasKernel \<lparr>dim_x = (N + 15) div 16, dim_y = (M + 15) div 16, dim_z = 1\<rparr> threads
                 (Suc (Suc (Suc (length m)))) (Suc (Suc (length m))) (int M) (int N))
        (m @ [Some (concat input), Some (concat weights), Some bias, Some (concat ?P)], host)
      = Inr (m @ [Some (concat input), Some (concat weights), Some bias, Some (concat ?R)], host)"
    using exec_kernel[where m = "m @ [Some (concat input), Some (concat weights), Some bias, Some (concat ?P)]"
        and host = host, OF buffer_new3 buffer_new2 k]
    by (simp add: list_update_append)
  have e6: "exec_op (CopyD2H (Suc (Suc (Suc (length m)))) (M * N))
        (m @ [Some (concat input), Some (concat weights), Some bias, Some (concat ?R)], host)
      = Inr (m @ [Some (concat input), Some (concat weights), Some bias, Some (concat ?R)], concat ?R)"
    using exec_copy_out[where m = "m @ [Some (concat input), Some (concat weights), Some bias, Some (concat ?R)]"
        and host = host and count = "M * N", OF buffer_new3] lr lh
    by simp
  show ?thesis by (simp only: forM.simps e1 e2 e3 e4 e5 e6 sum.case)
qed

lemma to_size_nat: "to_size (int n) = n" if "n < 2 ^ 64"
  using that by (simp add: to_size_def nat_mod_distrib flip: of_nat_power of_nat_mod)

lemma tdiv_nat: "tdiv (int n + 15) 16 = int ((n + 15) div 16)"
  by (simp add: tdiv_def sgn_if zdiv_int)

lemma to_uint32_nat: "n < 2 ^ 32 \<Longrightarrow> to_uint32 (int n) = n"
  by (simp add: to_uint32_def nat_mod_distrib flip: of_nat_power of_nat_mod)

lemma blocks_source:
  assumes "N + 15 < 2 ^ 31" "M + 15 < 2 ^ 31"
  shows "blocks (int N) (int M) d = (Inr \<lparr>dim_x = (N + 15) div 16, dim_y = (M + 15) div 16, dim_z = 1\<rparr>, d)"
proof -
  have ok: "int32_ok (int N + 15)" "int32_ok (int M + 15)"
    using int32_ok_nat[OF assms(1)] int32_ok_nat[OF assms(2)] by simp_all
  have "(N + 15) div 16 < 2 ^ 32" "(M + 15) div 16 < 2 ^ 32" using assms by simp_all
  then have "to_uint32 (tdiv (int N + 15) 16) = (N + 15) div 16" "to_uint32 (tdiv (int M + 15) 16) = (M + 15) div 16"
    by (simp_all only: tdiv_nat to_uint32_nat)
  then show ?thesis using ok by (simp add: blocks_def ret_def)
qed


lemma mult_less_factor:
  fixes a b :: nat
  assumes "a * b < c" "0 < a" "0 < b"
  shows "a < c" "b < c"
proof -
  have "a \<le> a * b" using assms(3) by (cases b) simp_all
  then show "a < c" using assms(1) by linarith
  have "b \<le> a * b" using assms(2) by (cases a) simp_all
  then show "b < c" using assms(1) by linarith
qed

lemma fits_vector:
  assumes "n < 2 ^ 31"
  shows "\<not> vector_max_size 4 < n" "\<not> vector_max_size 24 < n"
  using assms by (simp_all add: vector_max_size_def)

lemma then_do_Inr: "m d = (Inr r, d') \<Longrightarrow> then_do m f d = f r d'"
  by (simp add: then_do_def)

lemma then_do_Inl: "m d = (Inl e, d') \<Longrightarrow> then_do m f d = (Inl e, d')"
  by (simp add: then_do_def)

lemma linearCUBLAS_run:
  fixes input weights :: "('a::semiring_1) list list"
  assumes i: "is_matrix M K input" and w: "is_matrix N K weights" and b: "N \<le> length bias"
    and pos: "0 < M" "0 < K" "0 < N"
    and sz: "M * K < 2 ^ 31" "N * K < 2 ^ 31" "M * N < 2 ^ 31" "M \<le> 1048560" "N + 15 < 2 ^ 31"
    and idle: "stream d = []"
  shows "linearCUBLAS input weights bias handle d =
           (Inr (biased bias (product_rows input weights)),
            d\<lparr>mem := mem d @ [None, None, None, None],
              calls := calls d @ issued (length (mem d)) (M * K) (N * K) (length bias) (M * N)
                \<lparr>dim_x = (N + 15) div 16, dim_y = (M + 15) div 16, dim_z = 1\<rparr>\<rparr>)"
proof -
  have il: "list_all (\<lambda>row. length row = K) input" "length input = M"
    and wl: "list_all (\<lambda>row. length row = K) weights" "length weights = N"
    using i w by (simp_all add: is_matrix_def)
  obtain row0 rest where inp: "input = row0 # rest" using il(2) pos(1) by (cases input) auto
  have r0: "length row0 = K" using il(1) inp by simp
  have small: "M < 2 ^ 31" "K < 2 ^ 31" "N < 2 ^ 31"
    using mult_less_factor[OF sz(1) pos(1,2)] mult_less_factor[OF sz(2) pos(3,2)] by simp_all
  have dims: "to_int32 (length (row0 # rest)) = int M" "to_int32 (length row0) = int K"
    "to_int32 (length weights) = int N"
    using small il(2) wl(2) r0 inp by (simp_all add: to_int32_small)
  have ok: "int32_ok (int M * int K)" "int32_ok (int N * int K)" "int32_ok (int M * int N)"
    using int32_ok_nat[OF sz(1)] int32_ok_nat[OF sz(2)] int32_ok_nat[OF sz(3)] by simp_all
  have sizes: "to_size (int M * int K) = M * K" "to_size (int N * int K) = N * K"
    "to_size (int M * int N) = M * N"
  proof -
    have "M * K < 2 ^ 64" "N * K < 2 ^ 64" "M * N < 2 ^ 64" using sz(1,2,3) by simp_all
    from to_size_nat[OF this(1)] to_size_nat[OF this(2)] to_size_nat[OF this(3)]
    show "to_size (int M * int K) = M * K" "to_size (int N * int K) = N * K"
      "to_size (int M * int N) = M * N" by simp_all
  qed
  have fi: "length (concat input) = M * K" and fw: "length (concat weights) = N * K"
    using length_concat_rect[OF il(1)] length_concat_rect[OF wl(1)] il(2) wl(2) by simp_all
  have m15: "M + 15 < 2 ^ 31" using sz(4) by simp
  let ?R = "biased bias (product_rows input weights)"
  let ?g = "\<lparr>dim_x = (N + 15) div 16, dim_y = (M + 15) div 16, dim_z = 1\<rparr>"
  define p0 where "p0 = length (mem d)"
  define gA gB gC gD where "gA = Some (map (garbage d) [0 ..< M * K])"
    and "gB = Some (map (garbage d) [0 ..< N * K])"
    and "gC = Some (map (garbage d) [0 ..< length bias])"
    and "gD = Some (map (garbage d) [0 ..< M * N])"
  define dev where "dev ms st cs = \<lparr>mem = ms, stream = st, calls = cs, garbage = garbage d\<rparr>" for ms st cs
  define o1 o2 o3 o4 o5 o6 where "o1 = CopyH2D p0 (concat input)"
    and "o2 = CopyH2D (Suc p0) (concat weights)"
    and "o3 = CopyH2D (Suc (Suc p0)) bias"
    and "o4 = Sgemm True False (int N) (int M) (int K) (1::'a) (Suc p0) (int K) p0 (int K) 0 (Suc (Suc (Suc p0))) (int N)"
    and "o5 = (AddBiasKernel ?g threads (Suc (Suc (Suc p0))) (Suc (Suc p0)) (int M) (int N) :: 'a op)"
    and "o6 = (CopyD2H (Suc (Suc (Suc p0))) (M * N) :: 'a op)"
  define c where "c = issued p0 (M * K) (N * K) (length bias) (M * N) ?g"
  define m4 where "m4 = mem d @ [gA, gB, gC, gD]"
  have d0: "d = dev (mem d) [] (calls d)" by (simp add: dev_def idle)
  have s1: "cudaMallocAsync (M * K) (dev (mem d) [] (calls d)) = (Inr p0, dev (mem d @ [gA]) [] (calls d @ take 1 c))"
    by (simp add: cudaMallocAsync_def dev_def p0_def gA_def c_def issued_def)
  have s2: "cudaMallocAsync (N * K) (dev (mem d @ [gA]) [] (calls d @ take 1 c))
      = (Inr (Suc p0), dev (mem d @ [gA, gB]) [] (calls d @ take 2 c))"
    by (simp add: cudaMallocAsync_def dev_def p0_def gB_def c_def issued_def)
  have s3: "cudaMallocAsync (length bias) (dev (mem d @ [gA, gB]) [] (calls d @ take 2 c))
      = (Inr (Suc (Suc p0)), dev (mem d @ [gA, gB, gC]) [] (calls d @ take 3 c))"
    by (simp add: cudaMallocAsync_def dev_def p0_def gC_def c_def issued_def)
  have s4: "cudaMallocAsync (M * N) (dev (mem d @ [gA, gB, gC]) [] (calls d @ take 3 c))
      = (Inr (Suc (Suc (Suc p0))), dev m4 [] (calls d @ take 4 c))"
    by (simp add: cudaMallocAsync_def dev_def p0_def gD_def c_def issued_def m4_def)
  have s5: "cudaMemcpyAsync_H2D p0 (concat input) (M * K) (dev m4 [] (calls d @ take 4 c))
      = (Inr (), dev m4 [o1] (calls d @ take 5 c))"
    by (simp add: cudaMemcpyAsync_H2D_def dev_def o1_def c_def issued_def fi)
  have s6: "cudaMemcpyAsync_H2D (Suc p0) (concat weights) (N * K) (dev m4 [o1] (calls d @ take 5 c))
      = (Inr (), dev m4 [o1, o2] (calls d @ take 6 c))"
    by (simp add: cudaMemcpyAsync_H2D_def dev_def o2_def c_def issued_def fw)
  have s7: "cudaMemcpyAsync_H2D (Suc (Suc p0)) bias (length bias) (dev m4 [o1, o2] (calls d @ take 6 c))
      = (Inr (), dev m4 [o1, o2, o3] (calls d @ take 7 c))"
    by (simp add: cudaMemcpyAsync_H2D_def dev_def o3_def c_def issued_def)
  have s8: "cublasSgemm handle True False (int N) (int M) (int K) 1 (Suc p0) (int K) p0 (int K) 0
        (Suc (Suc (Suc p0))) (int N) (dev m4 [o1, o2, o3] (calls d @ take 7 c))
      = (Inr (), dev m4 [o1, o2, o3, o4] (calls d @ take 8 c))"
    by (simp add: cublasSgemm_def dev_def o4_def c_def issued_def)
  have s9: "blocks (int N) (int M) (dev m4 [o1, o2, o3, o4] (calls d @ take 8 c))
      = (Inr ?g, dev m4 [o1, o2, o3, o4] (calls d @ take 8 c))"
    using blocks_source[OF sz(5) m15] .
  have s10: "launch ?g threads (Suc (Suc (Suc p0))) (Suc (Suc p0)) (int M) (int N)
        (dev m4 [o1, o2, o3, o4] (calls d @ take 8 c))
      = (Inr (), dev m4 [o1, o2, o3, o4, o5] (calls d @ take 9 c))"
    by (simp add: launch_def dev_def o5_def c_def issued_def)
  have s11: "cudaMemcpyAsync_D2H (Suc (Suc (Suc p0))) (M * N) (dev m4 [o1, o2, o3, o4, o5] (calls d @ take 9 c))
      = (Inr (), dev m4 [o1, o2, o3, o4, o5, o6] (calls d @ take 10 c))"
    by (simp add: cudaMemcpyAsync_D2H_def dev_def o6_def c_def issued_def)
  have ex: "forM [o1, o2, o3, o4, o5, o6] exec_op (m4, replicate (M * N) 0)
         = Inr (mem d @ [Some (concat input), Some (concat weights), Some bias, Some (concat ?R)], concat ?R)"
    unfolding o1_def o2_def o3_def o4_def o5_def o6_def m4_def gA_def gB_def gC_def gD_def p0_def
    by (rule exec_chain[OF i w b pos sz(3,4,5)]) simp_all
  define m5 where "m5 = mem d @ [Some (concat input), Some (concat weights), Some bias, Some (concat ?R)]"
  have s12: "cudaStreamSynchronize (replicate (M * N) 0) (dev m4 [o1, o2, o3, o4, o5, o6] (calls d @ take 10 c))
      = (Inr (concat ?R), dev m5 [] (calls d @ take 11 c))"
    using ex by (simp add: cudaStreamSynchronize_def dev_def c_def issued_def m5_def)
  have rm: "is_matrix M N ?R"
    using biased_matrix[OF product_rows_matrix[OF il(2) wl(2)] b] .
  have re: "forM (int_range (int M)) (reassemble_row (concat ?R) (int N)) (replicate M []) = Inr ?R"
    using reassemble_rows[OF rm sz(3)] .
  have tm: "to_size (int M) = M" using to_size_nat[of M] small(1) by simp
  have s13: "reassemble (concat ?R) (int M) (int N) (dev m5 [] (calls d @ take 11 c))
      = (Inr ?R, dev m5 [] (calls d @ take 12 c))"
    using re fits_vector(2)[OF small(1)] by (simp add: reassemble_def tm dev_def c_def issued_def)
  have s14: "cudaFreeAsync p0 (dev m5 [] (calls d @ take 12 c))
      = (Inr (), dev (mem d @ [None, Some (concat weights), Some bias, Some (concat ?R)]) [] (calls d @ take 13 c))"
    by (simp add: cudaFreeAsync_def dev_def c_def issued_def m5_def p0_def)
  have s15: "cudaFreeAsync (Suc p0) (dev (mem d @ [None, Some (concat weights), Some bias, Some (concat ?R)]) [] (calls d @ take 13 c))
      = (Inr (), dev (mem d @ [None, None, Some bias, Some (concat ?R)]) [] (calls d @ take 14 c))"
    by (simp add: cudaFreeAsync_def dev_def c_def issued_def p0_def list_update_append)
  have s16: "cudaFreeAsync (Suc (Suc p0)) (dev (mem d @ [None, None, Some bias, Some (concat ?R)]) [] (calls d @ take 14 c))
      = (Inr (), dev (mem d @ [None, None, None, Some (concat ?R)]) [] (calls d @ take 15 c))"
    by (simp add: cudaFreeAsync_def dev_def c_def issued_def p0_def list_update_append)
  have s17: "cudaFreeAsync (Suc (Suc (Suc p0))) (dev (mem d @ [None, None, None, Some (concat ?R)]) [] (calls d @ take 15 c))
      = (Inr (), dev (mem d @ [None, None, None, None]) [] (calls d @ c))"
    by (simp add: cudaFreeAsync_def dev_def c_def issued_def p0_def list_update_append)
  have fin: "dev (mem d @ [None, None, None, None]) [] (calls d @ c)
      = d\<lparr>mem := mem d @ [None, None, None, None],
           calls := calls d @ issued (length (mem d)) (M * K) (N * K) (length bias) (M * N)
                \<lparr>dim_x = (N + 15) div 16, dim_y = (M + 15) div 16, dim_z = 1\<rparr>\<rparr>"
    by (simp add: dev_def c_def p0_def idle)
  have noov: "(\<not> int32_ok (int M * int K) \<or> \<not> int32_ok (int N * int K) \<or> \<not> int32_ok (int M * int N)) = False"
    using ok by simp
  have nolen: "(vector_max_size 4 < M * K \<or> vector_max_size 4 < N * K \<or> vector_max_size 4 < M * N) = False"
    using fits_vector(1)[OF sz(1)] fits_vector(1)[OF sz(2)] fits_vector(1)[OF sz(3)] by simp
  note t = then_do_Inr[where m = "cudaMallocAsync (M * K)", OF s1]
    then_do_Inr[where m = "cudaMallocAsync (N * K)", OF s2]
    then_do_Inr[where m = "cudaMallocAsync (length bias)", OF s3]
    then_do_Inr[where m = "cudaMallocAsync (M * N)", OF s4]
    then_do_Inr[where m = "cudaMemcpyAsync_H2D p0 (concat input) (M * K)", OF s5]
    then_do_Inr[where m = "cudaMemcpyAsync_H2D (Suc p0) (concat weights) (N * K)", OF s6]
    then_do_Inr[where m = "cudaMemcpyAsync_H2D (Suc (Suc p0)) bias (length bias)", OF s7]
    then_do_Inr[where m = "cublasSgemm handle True False (int N) (int M) (int K) 1 (Suc p0) (int K) p0 (int K) 0 (Suc (Suc (Suc p0))) (int N)", OF s8]
    then_do_Inr[where m = "blocks (int N) (int M)", OF s9]
    then_do_Inr[where m = "launch ?g threads (Suc (Suc (Suc p0))) (Suc (Suc p0)) (int M) (int N)", OF s10]
    then_do_Inr[where m = "cudaMemcpyAsync_D2H (Suc (Suc (Suc p0))) (M * N)", OF s11]
    then_do_Inr[where m = "cudaStreamSynchronize (replicate (M * N) 0)", OF s12]
    then_do_Inr[where m = "reassemble (concat ?R) (int M) (int N)", OF s13]
    then_do_Inr[where m = "cudaFreeAsync p0", OF s14]
    then_do_Inr[where m = "cudaFreeAsync (Suc p0)", OF s15]
    then_do_Inr[where m = "cudaFreeAsync (Suc (Suc p0))", OF s16]
    then_do_Inr[where m = "cudaFreeAsync (Suc (Suc (Suc p0)))", OF s17]
  have "linearCUBLAS input weights bias handle (dev (mem d) [] (calls d))
      = (Inr ?R, dev (mem d @ [None, None, None, None]) [] (calls d @ c))"
    unfolding linearCUBLAS_def inp list.case Let_def dims sizes noov nolen if_False
    unfolding inp[symmetric]
    by (simp only: t ret_def)
  then show ?thesis using d0 fin by simp
qed

lemma forM_error:
  "forM xs body s = Inl e \<Longrightarrow> \<exists>i \<in> set xs. \<exists>t. body i t = Inl e"
proof (induction xs arbitrary: s)
  case Nil
  then show ?case by simp
next
  case (Cons x xs)
  show ?case
  proof (cases "body x s")
    case (Inl e')
    then show ?thesis using Cons.prems by auto
  next
    case (Inr s')
    then have "forM xs body s' = Inl e" using Cons.prems by simp
    from Cons.IH[OF this] show ?thesis by auto
  qed
qed

lemma addBiasEfficient_error:
  "addBiasEfficient b d t bias batchSize outputDim out = Inl e \<Longrightarrow> unhandled e"
  by (auto simp: addBiasEfficient_def Let_def unhandled_def split: if_splits)

lemma launch_error:
  assumes "launch_addBiasEfficient g d bias batchSize outputDim out = Inl e"
  shows "unhandled e"
proof -
  from assms have "forM (grid_threads g d)
             (\<lambda>(blockIdx, threadIdx). addBiasEfficient blockIdx d threadIdx bias batchSize outputDim) out = Inl e"
    by (simp add: launch_addBiasEfficient_def split: if_splits)
  from forM_error[OF this] show ?thesis by (auto dest: addBiasEfficient_error)
qed

lemma buffer_error: "buffer m p = Inl e \<Longrightarrow> unhandled e"
  by (auto simp: buffer_def unhandled_def split: if_splits option.splits)

lemma sgemm_error: "cublasSgemm_buffers ta tb gm gn gk alpha A lda B ldb beta C ldc = Inl e \<Longrightarrow> unhandled e"
  by (auto simp: cublasSgemm_buffers_def unhandled_def split: if_splits)

lemma exec_op_error: "exec_op operation st = Inl e \<Longrightarrow> unhandled e"
  by (cases operation)
     (auto simp: exec_op_def Let_def unhandled_def split: sum.splits if_splits
           dest: buffer_error sgemm_error launch_error)

lemma buffer_Inr: "buffer m p = Inr b \<Longrightarrow> p < length m \<and> m ! p = Some b"
  by (auto simp: buffer_def split: if_splits option.splits)

lemma freed_update: "p < length m \<Longrightarrow> m ! p = Some b \<Longrightarrow> freed (m[p := Some b']) = freed m"
  by (auto simp: freed_def nth_list_update intro!: nth_equalityI split: if_splits)

lemma exec_op_freed:
  assumes "exec_op operation (m, host) = Inr (m', host')"
  shows "freed m' = freed m"
proof (cases operation)
  case (CopyH2D dst src)
  then show ?thesis using assms
    by (auto simp: exec_op_def split: sum.splits if_splits dest!: buffer_Inr intro: freed_update)
next
  case (Sgemm ta tb gm gn gk alpha pa lda pb ldb beta pc ldc)
  then show ?thesis using assms
    by (auto simp: exec_op_def split: sum.splits if_splits dest!: buffer_Inr intro: freed_update)
next
  case (AddBiasKernel g b pout pbias batchSize outputDim)
  then show ?thesis using assms
    by (auto simp: exec_op_def split: sum.splits if_splits dest!: buffer_Inr intro: freed_update)
next
  case (CopyD2H src count)
  then show ?thesis using assms
    by (auto simp: exec_op_def split: sum.splits if_splits)
qed

lemma stream_freed:
  assumes "forM ops exec_op (m, host) = Inr (m', host')"
  shows "freed m' = freed m"
proof -
  have "freed (fst (m', host')) = freed m"
  proof (rule forM_invariant[OF assms, where P = "\<lambda>s. freed (fst s) = freed m"])
    show "freed (fst (m, host)) = freed m" by simp
  next
    fix i t t' assume "freed (fst t) = freed m" "exec_op i t = Inr t'"
    then show "freed (fst t') = freed m"
      using exec_op_freed[of i "fst t" "snd t" "fst t'" "snd t'"] by simp
  qed
  then show ?thesis by simp
qed

lemma reassemble_row_error: "reassemble_row flat n i out = Inl e \<Longrightarrow> unhandled e"
  by (auto simp: reassemble_row_def Let_def unhandled_def split: if_splits)


lemma linearCUBLAS_outcome:
  fixes input weights :: "('a::semiring_1) list list"
  assumes ne: "input = row0 # rest"
    and bS: "bS = to_int32 (length input)" and iD: "iD = to_int32 (length row0)"
    and oD: "oD = to_int32 (length weights)"
    and noov: "int32_ok (bS * iD)" "int32_ok (oD * iD)" "int32_ok (bS * oD)"
    and a: "a = to_size (bS * iD)" and b: "b = to_size (oD * iD)" and e: "e = to_size (bS * oD)"
    and fits: "\<not> vector_max_size 4 < a" "\<not> vector_max_size 4 < b" "\<not> vector_max_size 4 < e"
  shows "\<exists>n g r d'. linearCUBLAS input weights bias handle d = (r, d') \<and>
           calls d' = calls d @ take n (issued (length (mem d)) a b (length bias) e g) \<and> 5 \<le> n \<and>
           (case r of
              Inl err \<Rightarrow> n \<le> 12 \<and> unhandled err
            | Inr out \<Rightarrow> n = 16 \<and> freed (mem d') = freed (mem d) @ [True, True, True, True])"
proof -
  define p0 where "p0 = length (mem d)"
  define gA gB gC gD where "gA = Some (map (garbage d) [0 ..< a])"
    and "gB = Some (map (garbage d) [0 ..< b])"
    and "gC = Some (map (garbage d) [0 ..< length bias])"
    and "gD = Some (map (garbage d) [0 ..< e])"
  define dev where "dev ms st cs = \<lparr>mem = ms, stream = st, calls = cs, garbage = garbage d\<rparr>" for ms st cs
  define m4 where "m4 = mem d @ [gA, gB, gC, gD]"
  define st0 where "st0 = stream d"
  define o1 o2 o3 o4 where "o1 = CopyH2D p0 (take a (concat input))"
    and "o2 = CopyH2D (Suc p0) (take b (concat weights))"
    and "o3 = CopyH2D (Suc (Suc p0)) bias"
    and "o4 = Sgemm True False oD bS iD (1::'a) (Suc p0) iD p0 iD 0 (Suc (Suc (Suc p0))) oD"
  define c where "c g = issued p0 a b (length bias) e g" for g
  have c4: "take 4 (c g) = take 4 (c g')" "take 5 (c g) = take 5 (c g')" "take 6 (c g) = take 6 (c g')"
    "take 7 (c g) = take 7 (c g')" "take 8 (c g) = take 8 (c g')" for g g'
    by (simp_all add: c_def issued_def)
  have dims: "to_int32 (length (row0 # rest)) = bS" "to_int32 (length row0) = iD"
    "to_int32 (length weights) = oD"
    using ne bS iD oD by simp_all
  have sizes: "to_size (bS * iD) = a" "to_size (oD * iD) = b" "to_size (bS * oD) = e"
    using a b e by simp_all
  have noov': "(\<not> int32_ok (bS * iD) \<or> \<not> int32_ok (oD * iD) \<or> \<not> int32_ok (bS * oD)) = False"
    using noov by simp
  have nolen: "(vector_max_size 4 < a \<or> vector_max_size 4 < b \<or> vector_max_size 4 < e) = False"
    using fits by simp
  have d0: "d = dev (mem d) st0 (calls d)" by (simp add: dev_def st0_def)
  have cl: "calls (dev ms st cs) = cs" and ml: "mem (dev ms st cs) = ms" for ms st cs
    by (simp_all add: dev_def)
  fix g0 :: dim3
  have s1: "cudaMallocAsync a (dev (mem d) st0 (calls d)) = (Inr p0, dev (mem d @ [gA]) st0 (calls d @ take 1 (c g0)))"
    by (simp add: cudaMallocAsync_def dev_def p0_def gA_def c_def issued_def)
  have s2: "cudaMallocAsync b (dev (mem d @ [gA]) st0 (calls d @ take 1 (c g0)))
      = (Inr (Suc p0), dev (mem d @ [gA, gB]) st0 (calls d @ take 2 (c g0)))"
    by (simp add: cudaMallocAsync_def dev_def p0_def gB_def c_def issued_def)
  have s3: "cudaMallocAsync (length bias) (dev (mem d @ [gA, gB]) st0 (calls d @ take 2 (c g0)))
      = (Inr (Suc (Suc p0)), dev (mem d @ [gA, gB, gC]) st0 (calls d @ take 3 (c g0)))"
    by (simp add: cudaMallocAsync_def dev_def p0_def gC_def c_def issued_def)
  have s4: "cudaMallocAsync e (dev (mem d @ [gA, gB, gC]) st0 (calls d @ take 3 (c g0)))
      = (Inr (Suc (Suc (Suc p0))), dev m4 st0 (calls d @ take 4 (c g0)))"
    by (simp add: cudaMallocAsync_def dev_def p0_def gD_def c_def issued_def m4_def)
  note t14 = then_do_Inr[where m = "cudaMallocAsync a", OF s1]
    then_do_Inr[where m = "cudaMallocAsync b", OF s2]
    then_do_Inr[where m = "cudaMallocAsync (length bias)", OF s3]
    then_do_Inr[where m = "cudaMallocAsync e", OF s4]
  show ?thesis
  proof (cases "length (concat input) < a")
    case True
    have f5: "cudaMemcpyAsync_H2D p0 (concat input) a (dev m4 st0 (calls d @ take 4 (c g0)))
        = (Inl (OutOfBounds HostCopy), dev m4 st0 (calls d @ take 5 (c g0)))"
      using True by (simp add: cudaMemcpyAsync_H2D_def dev_def c_def issued_def)
    have "linearCUBLAS input weights bias handle (dev (mem d) st0 (calls d))
        = (Inl (OutOfBounds HostCopy), dev m4 st0 (calls d @ take 5 (c g0)))"
      unfolding linearCUBLAS_def ne list.case Let_def dims sizes noov' nolen if_False
      unfolding ne[symmetric]
      by (simp only: t14 then_do_Inl[where m = "cudaMemcpyAsync_H2D p0 (concat input) a", OF f5])
    then show ?thesis
      unfolding d0[symmetric] c_def p0_def
      by (intro exI[of _ 5] exI[of _ g0] exI conjI) (assumption, simp_all add: cl unhandled_def)
  next
    case inputOK: False
    have s5: "cudaMemcpyAsync_H2D p0 (concat input) a (dev m4 st0 (calls d @ take 4 (c g0)))
        = (Inr (), dev m4 (st0 @ [o1]) (calls d @ take 5 (c g0)))"
      using inputOK by (simp add: cudaMemcpyAsync_H2D_def dev_def c_def issued_def o1_def)
    note t5 = then_do_Inr[where m = "cudaMemcpyAsync_H2D p0 (concat input) a", OF s5]
    show ?thesis
    proof (cases "length (concat weights) < b")
      case True
      have f6: "cudaMemcpyAsync_H2D (Suc p0) (concat weights) b (dev m4 (st0 @ [o1]) (calls d @ take 5 (c g0)))
          = (Inl (OutOfBounds HostCopy), dev m4 (st0 @ [o1]) (calls d @ take 6 (c g0)))"
        using True by (simp add: cudaMemcpyAsync_H2D_def dev_def c_def issued_def)
      have "linearCUBLAS input weights bias handle (dev (mem d) st0 (calls d))
          = (Inl (OutOfBounds HostCopy), dev m4 (st0 @ [o1]) (calls d @ take 6 (c g0)))"
        unfolding linearCUBLAS_def ne list.case Let_def dims sizes noov' nolen if_False
        unfolding ne[symmetric]
        by (simp only: t14 t5 then_do_Inl[where m = "cudaMemcpyAsync_H2D (Suc p0) (concat weights) b", OF f6])
      then show ?thesis
        unfolding d0[symmetric] c_def p0_def
        by (intro exI[of _ 6] exI[of _ g0] exI conjI) (assumption, simp_all add: cl unhandled_def)
    next
      case weightsOK: False
      have s6: "cudaMemcpyAsync_H2D (Suc p0) (concat weights) b (dev m4 (st0 @ [o1]) (calls d @ take 5 (c g0)))
          = (Inr (), dev m4 (st0 @ [o1, o2]) (calls d @ take 6 (c g0)))"
        using weightsOK by (simp add: cudaMemcpyAsync_H2D_def dev_def c_def issued_def o2_def)
      have s7: "cudaMemcpyAsync_H2D (Suc (Suc p0)) bias (length bias) (dev m4 (st0 @ [o1, o2]) (calls d @ take 6 (c g0)))
          = (Inr (), dev m4 (st0 @ [o1, o2, o3]) (calls d @ take 7 (c g0)))"
        by (simp add: cudaMemcpyAsync_H2D_def dev_def c_def issued_def o3_def)
      have s8: "cublasSgemm handle True False oD bS iD 1 (Suc p0) iD p0 iD 0 (Suc (Suc (Suc p0))) oD
            (dev m4 (st0 @ [o1, o2, o3]) (calls d @ take 7 (c g0)))
          = (Inr (), dev m4 (st0 @ [o1, o2, o3, o4]) (calls d @ take 8 (c g0)))"
        by (simp add: cublasSgemm_def dev_def o4_def c_def issued_def)
      note t68 = then_do_Inr[where m = "cudaMemcpyAsync_H2D (Suc p0) (concat weights) b", OF s6]
        then_do_Inr[where m = "cudaMemcpyAsync_H2D (Suc (Suc p0)) bias (length bias)", OF s7]
        then_do_Inr[where m = "cublasSgemm handle True False oD bS iD 1 (Suc p0) iD p0 iD 0 (Suc (Suc (Suc p0))) oD", OF s8]
      show ?thesis
      proof (cases "\<not> int32_ok (oD + 15) \<or> \<not> int32_ok (bS + 15)")
        case True
        have f9: "blocks oD bS (dev m4 (st0 @ [o1, o2, o3, o4]) (calls d @ take 8 (c g0)))
            = (Inl SignedOverflow, dev m4 (st0 @ [o1, o2, o3, o4]) (calls d @ take 8 (c g0)))"
          using True by (simp add: blocks_def fail_def)
        have "linearCUBLAS input weights bias handle (dev (mem d) st0 (calls d))
            = (Inl SignedOverflow, dev m4 (st0 @ [o1, o2, o3, o4]) (calls d @ take 8 (c g0)))"
          unfolding linearCUBLAS_def ne list.case Let_def dims sizes noov' nolen if_False
          unfolding ne[symmetric]
          by (simp only: t14 t5 t68 then_do_Inl[where m = "blocks oD bS", OF f9])
        then show ?thesis
          unfolding d0[symmetric] c_def p0_def
          by (intro exI[of _ 8] exI[of _ g0] exI conjI) (assumption, simp_all add: cl unhandled_def)
      next
        case blocksOK: False
        define g where "g = \<lparr>dim_x = to_uint32 (tdiv (oD + 15) 16), dim_y = to_uint32 (tdiv (bS + 15) 16), dim_z = 1\<rparr>"
        define o5 o6 where "o5 = (AddBiasKernel g threads (Suc (Suc (Suc p0))) (Suc (Suc p0)) bS oD :: 'a op)"
          and "o6 = (CopyD2H (Suc (Suc (Suc p0))) e :: 'a op)"
        have s9: "blocks oD bS (dev m4 (st0 @ [o1, o2, o3, o4]) (calls d @ take 8 (c g0)))
            = (Inr g, dev m4 (st0 @ [o1, o2, o3, o4]) (calls d @ take 8 (c g)))"
          using blocksOK c4(5)[of g0 g] by (simp add: blocks_def ret_def g_def)
        have s10: "launch g threads (Suc (Suc (Suc p0))) (Suc (Suc p0)) bS oD
              (dev m4 (st0 @ [o1, o2, o3, o4]) (calls d @ take 8 (c g)))
            = (Inr (), dev m4 (st0 @ [o1, o2, o3, o4, o5]) (calls d @ take 9 (c g)))"
          by (simp add: launch_def dev_def o5_def c_def issued_def)
        have s11: "cudaMemcpyAsync_D2H (Suc (Suc (Suc p0))) e (dev m4 (st0 @ [o1, o2, o3, o4, o5]) (calls d @ take 9 (c g)))
            = (Inr (), dev m4 (st0 @ [o1, o2, o3, o4, o5, o6]) (calls d @ take 10 (c g)))"
          by (simp add: cudaMemcpyAsync_D2H_def dev_def o6_def c_def issued_def)
        note t911 = then_do_Inr[where m = "blocks oD bS", OF s9]
          then_do_Inr[where m = "launch g threads (Suc (Suc (Suc p0))) (Suc (Suc p0)) bS oD", OF s10]
          then_do_Inr[where m = "cudaMemcpyAsync_D2H (Suc (Suc (Suc p0))) e", OF s11]
        show ?thesis
        proof (cases "forM (st0 @ [o1, o2, o3, o4, o5, o6]) exec_op (m4, replicate e 0)")
          case (Inl err)
          have f12: "cudaStreamSynchronize (replicate e 0) (dev m4 (st0 @ [o1, o2, o3, o4, o5, o6]) (calls d @ take 10 (c g)))
              = (Inl err, dev m4 [] (calls d @ take 11 (c g)))"
            using Inl by (simp add: cudaStreamSynchronize_def dev_def c_def issued_def)
          have ub: "unhandled err"
            using forM_error[OF Inl] exec_op_error by blast
          have "linearCUBLAS input weights bias handle (dev (mem d) st0 (calls d))
              = (Inl err, dev m4 [] (calls d @ take 11 (c g)))"
            unfolding linearCUBLAS_def ne list.case Let_def dims sizes noov' nolen if_False
            unfolding ne[symmetric]
            by (simp only: t14 t5 t68 t911 then_do_Inl[where m = "cudaStreamSynchronize (replicate e 0)", OF f12])
          then show ?thesis
            unfolding d0[symmetric] c_def p0_def using ub
            by (intro exI[of _ 11] exI[of _ g] exI conjI) (assumption, simp_all add: cl)
        next
          case (Inr res)
          obtain m' host' where res: "res = (m', host')" by (cases res)
          have run: "forM (st0 @ [o1, o2, o3, o4, o5, o6]) exec_op (m4, replicate e 0) = Inr (m', host')"
            using Inr res by simp
          have fr: "freed m' = freed (mem d) @ [False, False, False, False]"
            using stream_freed[OF run] by (simp add: m4_def freed_def gA_def gB_def gC_def gD_def)
          have len: "length m' = length (mem d) + 4"
            using arg_cong[OF fr, of length] by (simp add: freed_def)
          have s12: "cudaStreamSynchronize (replicate e 0) (dev m4 (st0 @ [o1, o2, o3, o4, o5, o6]) (calls d @ take 10 (c g)))
              = (Inr host', dev m' [] (calls d @ take 11 (c g)))"
            using run by (simp add: cudaStreamSynchronize_def dev_def c_def issued_def)
          note t12 = then_do_Inr[where m = "cudaStreamSynchronize (replicate e 0)", OF s12]
          show ?thesis
          proof (cases "vector_max_size 24 < to_size bS")
            case True
            have f13: "reassemble host' bS oD (dev m' [] (calls d @ take 11 (c g)))
                = (Inl LengthError, dev m' [] (calls d @ take 11 (c g)))"
              using True by (simp add: reassemble_def)
            have "linearCUBLAS input weights bias handle (dev (mem d) st0 (calls d))
                = (Inl LengthError, dev m' [] (calls d @ take 11 (c g)))"
              unfolding linearCUBLAS_def ne list.case Let_def dims sizes noov' nolen if_False
              unfolding ne[symmetric]
              by (simp only: t14 t5 t68 t911 t12 then_do_Inl[where m = "reassemble host' bS oD", OF f13])
            then show ?thesis
              unfolding d0[symmetric] c_def p0_def
              by (intro exI[of _ 11] exI[of _ g] exI conjI) (assumption, simp_all add: cl unhandled_def)
          next
            case fit: False
            show ?thesis
          proof (cases "forM (int_range bS) (reassemble_row host' oD) (replicate (to_size bS) [])")
            case (Inl err)
            have f13: "reassemble host' bS oD (dev m' [] (calls d @ take 11 (c g)))
                = (Inl err, dev m' [] (calls d @ take 12 (c g)))"
              using Inl fit by (simp add: reassemble_def dev_def c_def issued_def)
            have ub: "unhandled err"
              using forM_error[OF Inl] reassemble_row_error by blast
            have "linearCUBLAS input weights bias handle (dev (mem d) st0 (calls d))
                = (Inl err, dev m' [] (calls d @ take 12 (c g)))"
              unfolding linearCUBLAS_def ne list.case Let_def dims sizes noov' nolen if_False
              unfolding ne[symmetric]
              by (simp only: t14 t5 t68 t911 t12 then_do_Inl[where m = "reassemble host' bS oD", OF f13])
            then show ?thesis
              unfolding d0[symmetric] c_def p0_def using ub
              by (intro exI[of _ 12] exI[of _ g] exI conjI) (assumption, simp_all add: cl)
          next
            case (Inr out)
            define m1 m2 m3 m4' where "m1 = m'[p0 := None]" and "m2 = m1[Suc p0 := None]"
              and "m3 = m2[Suc (Suc p0) := None]" and "m4' = m3[Suc (Suc (Suc p0)) := None]"
            have s13: "reassemble host' bS oD (dev m' [] (calls d @ take 11 (c g)))
                = (Inr out, dev m' [] (calls d @ take 12 (c g)))"
              using Inr fit by (simp add: reassemble_def dev_def c_def issued_def)
            have s14: "cudaFreeAsync p0 (dev m' [] (calls d @ take 12 (c g)))
                = (Inr (), dev m1 [] (calls d @ take 13 (c g)))"
              using len by (simp add: cudaFreeAsync_def dev_def c_def issued_def p0_def m1_def)
            have s15: "cudaFreeAsync (Suc p0) (dev m1 [] (calls d @ take 13 (c g)))
                = (Inr (), dev m2 [] (calls d @ take 14 (c g)))"
              using len by (simp add: cudaFreeAsync_def dev_def c_def issued_def p0_def m1_def m2_def)
            have s16: "cudaFreeAsync (Suc (Suc p0)) (dev m2 [] (calls d @ take 14 (c g)))
                = (Inr (), dev m3 [] (calls d @ take 15 (c g)))"
              using len by (simp add: cudaFreeAsync_def dev_def c_def issued_def p0_def m1_def m2_def m3_def)
            have s17: "cudaFreeAsync (Suc (Suc (Suc p0))) (dev m3 [] (calls d @ take 15 (c g)))
                = (Inr (), dev m4' [] (calls d @ take 16 (c g)))"
              using len by (simp add: cudaFreeAsync_def dev_def c_def issued_def p0_def m1_def m2_def m3_def m4'_def)
            note t1317 = then_do_Inr[where m = "reassemble host' bS oD", OF s13]
              then_do_Inr[where m = "cudaFreeAsync p0", OF s14]
              then_do_Inr[where m = "cudaFreeAsync (Suc p0)", OF s15]
              then_do_Inr[where m = "cudaFreeAsync (Suc (Suc p0))", OF s16]
              then_do_Inr[where m = "cudaFreeAsync (Suc (Suc (Suc p0)))", OF s17]
            have fin: "freed m4' = freed (mem d) @ [True, True, True, True]"
            proof (rule nth_equalityI)
              show "length (freed m4') = length (freed (mem d) @ [True, True, True, True])"
                using len by (simp add: freed_def m1_def m2_def m3_def m4'_def)
            next
              fix k assume "k < length (freed m4')"
              then have k: "k < length (mem d) + 4"
                using len by (simp add: freed_def m1_def m2_def m3_def m4'_def)
              have old: "freed m' ! k = (freed (mem d) @ [False, False, False, False]) ! k"
                using fr by simp
              show "freed m4' ! k = (freed (mem d) @ [True, True, True, True]) ! k"
              proof (cases "k < length (mem d)")
                case True
                then have "freed m4' ! k = freed m' ! k"
                  using len by (simp add: freed_def m1_def m2_def m3_def m4'_def p0_def)
                then show ?thesis using old True by (simp add: nth_append freed_def)
              next
                case False
                then have "k = p0 \<or> k = Suc p0 \<or> k = Suc (Suc p0) \<or> k = Suc (Suc (Suc p0))"
                  using k by (auto simp: p0_def)
                then have "freed m4' ! k = True"
                  using len by (auto simp: freed_def m1_def m2_def m3_def m4'_def p0_def nth_list_update)
                moreover have "(freed (mem d) @ [True, True, True, True]) ! k = True"
                  using False k by (auto simp: nth_append freed_def nth_Cons' )
                ultimately show ?thesis by simp
              qed
            qed
            have "linearCUBLAS input weights bias handle (dev (mem d) st0 (calls d))
                = (Inr out, dev m4' [] (calls d @ take 16 (c g)))"
              unfolding linearCUBLAS_def ne list.case Let_def dims sizes noov' nolen if_False
              unfolding ne[symmetric]
              by (simp only: t14 t5 t68 t911 t12 t1317 ret_def)
            then show ?thesis
              unfolding d0[symmetric] c_def p0_def using fin
              by (intro exI[of _ 16] exI[of _ g] exI conjI) (assumption, simp_all add: cl ml)
          qed
          qed
        qed
      qed
    qed
  qed
qed

section \<open>Facts about the entry points\<close>

lemma length_transpose_m: "length (transpose_m B) = cols B"
  by (simp add: transpose_m_def cols_def split: list.splits)

lemma transpose_m_nth: "j < cols B \<Longrightarrow> transpose_m B ! j = map (\<lambda>row. row ! j) B"
  by (auto simp: transpose_m_def cols_def split: list.splits)

lemma foldl_plus_sum_list:
  fixes a :: "'a::semiring_0"
  shows "foldl (\<lambda>acc k. acc + f k) a xs = a + sum_list (map f xs)"
  by (induction xs arbitrary: a) (simp_all add: add.assoc)

lemma dotSIMD_column:
  fixes A B :: "('a::semiring_0) list list"
  assumes "length row = length B" "j < cols B"
  shows "dotSIMD row (transpose_m B ! j) = foldl (\<lambda>acc k. acc + row ! k * B ! k ! j) 0 [0 ..< length B]"
proof -
  have "map2 (*) row (map (\<lambda>r. r ! j) B) = map (\<lambda>k. row ! k * B ! k ! j) [0 ..< length B]"
    using assms(1) by (auto intro!: nth_equalityI)
  then show ?thesis
    using assms(2) by (simp add: dotSIMD_def transpose_m_nth foldl_plus_sum_list)
qed

lemma matmul_Inr:
  assumes "is_matrix M (length B) A" "is_matrix (length B) (cols B) B"
  shows "matmul A B = Inr (map (\<lambda>row. map (dotSIMD row) (transpose_m B)) A)"
  using assms by (simp add: matmul_def is_matrix_def)

lemma matmul_is_reference:
  fixes A B :: "('a::semiring_0) list list"
  assumes "is_matrix M (length B) A" "is_matrix (length B) (cols B) B"
  shows "matmul A B = Inr (matmul_reference A B)"
proof -
  have la: "length A = M" and ra: "\<And>i. i < M \<Longrightarrow> length (A ! i) = length B"
    using assms(1) is_matrix_row[OF assms(1)] by (simp_all add: is_matrix_def)
  have "map (\<lambda>row. map (dotSIMD row) (transpose_m B)) A = matmul_reference A B"
  proof (rule nth_equalityI)
    show "length (map (\<lambda>row. map (dotSIMD row) (transpose_m B)) A) = length (matmul_reference A B)"
      by (simp add: matmul_reference_def)
  next
    fix i assume "i < length (map (\<lambda>row. map (dotSIMD row) (transpose_m B)) A)"
    then have i: "i < length A" by simp
    have "map (dotSIMD (A ! i)) (transpose_m B)
        = map (\<lambda>j. foldl (\<lambda>acc k. acc + A ! i ! k * B ! k ! j) 0 [0 ..< length B]) [0 ..< cols B]"
    proof (rule nth_equalityI)
      show "length (map (dotSIMD (A ! i)) (transpose_m B))
          = length (map (\<lambda>j. foldl (\<lambda>acc k. acc + A ! i ! k * B ! k ! j) 0 [0 ..< length B]) [0 ..< cols B])"
        by (simp add: length_transpose_m)
    next
      fix j assume "j < length (map (dotSIMD (A ! i)) (transpose_m B))"
      then have j: "j < cols B" by (simp add: length_transpose_m)
      have "dotSIMD (A ! i) (transpose_m B ! j) = foldl (\<lambda>acc k. acc + A ! i ! k * B ! k ! j) 0 [0 ..< length B]"
        using dotSIMD_column[OF _ j, of "A ! i"] ra i la by simp
      then show "map (dotSIMD (A ! i)) (transpose_m B) ! j
          = map (\<lambda>j. foldl (\<lambda>acc k. acc + A ! i ! k * B ! k ! j) 0 [0 ..< length B]) [0 ..< cols B] ! j"
        using j by (simp add: length_transpose_m)
    qed
    then show "map (\<lambda>row. map (dotSIMD row) (transpose_m B)) A ! i = matmul_reference A B ! i"
      using i by (simp add: matmul_reference_def)
  qed
  then show ?thesis using matmul_Inr[OF assms] by simp
qed

lemma matmul_reference_matrix: "is_matrix (length A) (cols B) (matmul_reference A B)"
  by (simp add: is_matrix_def matmul_reference_def list_all_iff)

lemma linear_pre_activation_on:
  fixes out :: "('a::semiring_0) list list"
  assumes mm: "matmul input weights = Inr out" and shape: "is_matrix M N out"
    and pos: "0 < M" and small: "M < 2 ^ 31" "N < 2 ^ 31" and b: "N \<le> length bias"
  shows "linear_pre_activation input weights bias = Inr (biased bias out)"
proof -
  have len: "length out = M" and rows: "\<forall>row \<in> set out. length row = N"
    using shape by (simp_all add: is_matrix_def list_all_iff)
  obtain row0 rest where o: "out = row0 # rest" using len pos by (cases out) auto
  have r0: "length row0 = N" using rows o by simp
  have "add_bias_host bias (int (length out)) (int N) out = Inr (map (\<lambda>row. map2 (+) row bias) out)"
    using add_bias_host_correct[OF rows b] .
  then have "add_bias_host bias (to_int32 (length out)) (to_int32 (length row0)) out = Inr (biased bias out)"
    using small len r0 by (simp add: to_int32_small biased_def)
  then show ?thesis
    unfolding linear_pre_activation_def mm sum.case Let_def
    by (simp add: o)
qed


lemma matmul_shape:
  fixes A B :: "('a::semiring_0) list list"
  assumes "matmul A B = Inr out"
  shows "is_matrix (length A) (cols B) out"
  using assms
  by (auto simp: matmul_def is_matrix_def list_all_iff length_transpose_m split: if_splits)

lemma linearCUBLAS_empty: "linearCUBLAS [] weights bias handle d = (Inl (OutOfBounds Input0), d)"
  by (simp add: linearCUBLAS_def fail_def)

lemma linearCUBLAS_overflow:
  assumes "\<not> int32_ok (to_int32 (length (row0 # rest)) * to_int32 (length row0))
         \<or> \<not> int32_ok (to_int32 (length weights) * to_int32 (length row0))
         \<or> \<not> int32_ok (to_int32 (length (row0 # rest)) * to_int32 (length weights))"
  shows "linearCUBLAS (row0 # rest) weights bias handle d = (Inl SignedOverflow, d)"
  using assms unfolding linearCUBLAS_def list.case Let_def by (simp add: fail_def)

lemma linearCUBLAS_too_long:
  assumes "int32_ok (to_int32 (length (row0 # rest)) * to_int32 (length row0))"
    "int32_ok (to_int32 (length weights) * to_int32 (length row0))"
    "int32_ok (to_int32 (length (row0 # rest)) * to_int32 (length weights))"
    and "vector_max_size 4 < to_size (to_int32 (length (row0 # rest)) * to_int32 (length row0))
       \<or> vector_max_size 4 < to_size (to_int32 (length weights) * to_int32 (length row0))
       \<or> vector_max_size 4 < to_size (to_int32 (length (row0 # rest)) * to_int32 (length weights))"
  shows "linearCUBLAS (row0 # rest) weights bias handle d = (Inl LengthError, d)"
  using assms unfolding linearCUBLAS_def list.case Let_def by (simp add: fail_def)

lemma linearCUBLAS_any:
  fixes input weights :: "('a::semiring_1) list list"
  shows "\<exists>n a b e g r d'. linearCUBLAS input weights bias handle d = (r, d') \<and>
           calls d' = calls d @ take n (issued (length (mem d)) a b (length bias) e g) \<and>
           (case r of
              Inl err \<Rightarrow> n \<le> 12 \<and> err \<noteq> InvalidDimension \<and> (input \<noteq> [] \<longrightarrow> err \<noteq> OutOfBounds Input0)
            | Inr out \<Rightarrow> n = 16 \<and> freed (mem d') = freed (mem d) @ [True, True, True, True])"
proof (cases input)
  case Nil
  show ?thesis
    unfolding Nil linearCUBLAS_empty
    by (intro exI[of _ 0] exI conjI) (rule refl, simp_all)
next
  case (Cons row0 rest)
  define bS iD oD where "bS = to_int32 (length input)" and "iD = to_int32 (length row0)"
    and "oD = to_int32 (length weights)"
  show ?thesis
  proof (cases "int32_ok (bS * iD) \<and> int32_ok (oD * iD) \<and> int32_ok (bS * oD)")
    case False
    then have "linearCUBLAS input weights bias handle d = (Inl SignedOverflow, d)"
      unfolding Cons bS_def iD_def oD_def by (intro linearCUBLAS_overflow) (simp add: Cons)
    then show ?thesis
      by (intro exI[of _ 0] exI conjI) (assumption, simp_all)
  next
    case True
    show ?thesis
    proof (cases "vector_max_size 4 < to_size (bS * iD) \<or> vector_max_size 4 < to_size (oD * iD)
        \<or> vector_max_size 4 < to_size (bS * oD)")
      case long: True
      have "linearCUBLAS input weights bias handle d = (Inl LengthError, d)"
        using True long unfolding Cons bS_def iD_def oD_def
        by (intro linearCUBLAS_too_long) (simp_all add: Cons)
      then show ?thesis
        by (intro exI[of _ 0] exI conjI) (assumption, simp_all)
    next
      case fits: False
    from linearCUBLAS_outcome[OF Cons bS_def iD_def oD_def _ _ _ refl refl refl, of bias handle d] True fits
    obtain n g r d' where o: "linearCUBLAS input weights bias handle d = (r, d')"
      "calls d' = calls d @ take n (issued (length (mem d)) (to_size (bS * iD)) (to_size (oD * iD))
          (length bias) (to_size (bS * oD)) g)"
      "case r of Inl err \<Rightarrow> n \<le> 12 \<and> unhandled err
       | Inr out \<Rightarrow> n = 16 \<and> freed (mem d') = freed (mem d) @ [True, True, True, True]"
      by blast
    have "case r of
              Inl err \<Rightarrow> n \<le> 12 \<and> err \<noteq> InvalidDimension \<and> (input \<noteq> [] \<longrightarrow> err \<noteq> OutOfBounds Input0)
            | Inr out \<Rightarrow> n = 16 \<and> freed (mem d') = freed (mem d) @ [True, True, True, True]"
      using o(3) by (auto simp: unhandled_def split: sum.splits)
    then show ?thesis using o(1,2) by blast
    qed
  qed
qed

lemma host_reads_synced_prefix:
  "host_reads_synced s (xs @ ys) \<Longrightarrow> host_reads_synced s xs"
proof (induction xs arbitrary: s)
  case Nil
  then show ?case by simp
next
  case (Cons c xs)
  then show ?case by (cases c) (auto split: if_splits)
qed

lemma host_reads_synced_take: "host_reads_synced s xs \<Longrightarrow> host_reads_synced s (take n xs)"
  using host_reads_synced_prefix[of s "take n xs" "drop n xs"] by simp

lemma host_reads_synced_issued: "host_reads_synced NoCopy (issued p a b c e g)"
  by (simp add: issued_def)

lemma live_freed: "live d = filter (\<lambda>p. \<not> freed (mem d) ! p) [0 ..< length (freed (mem d))]"
  by (auto simp: live_def freed_def intro!: filter_cong)

lemma live_after_free:
  assumes "freed (mem d') = freed (mem d) @ [True, True, True, True]"
  shows "live d' = live d"
proof -
  let ?n = "length (freed (mem d))"
  let ?Q = "\<lambda>p. \<not> (freed (mem d) @ [True, True, True, True]) ! p"
  have split: "[0 ..< ?n + 4] = [0 ..< ?n] @ [?n ..< ?n + 4]"
    using upt_add_eq_append[of 0 ?n 4] by simp
  have "\<forall>p \<in> set [?n ..< ?n + 4]. \<not> ?Q p"
  proof
    fix p assume "p \<in> set [?n ..< ?n + 4]"
    then have p: "?n \<le> p" "p - ?n < 4" by auto
    have "(freed (mem d) @ [True, True, True, True]) ! p = [True, True, True, True] ! (p - ?n)"
      using p(1) by (simp add: nth_append)
    moreover have "[True, True, True, True] ! (p - ?n) \<in> set [True, True, True, True]"
      using p(2) by (intro nth_mem) simp
    ultimately show "\<not> ?Q p" by simp
  qed
  then have none: "filter ?Q [?n ..< ?n + 4] = []" by (simp only: filter_empty_conv)
  have len: "length (freed (mem d) @ [True, True, True, True]) = ?n + 4" by simp
  have "live d' = filter ?Q [0 ..< ?n + 4]"
    unfolding live_freed assms len ..
  also have "\<dots> = filter ?Q [0 ..< ?n]"
    unfolding split filter_append none append_Nil2 ..
  also have "\<dots> = filter (\<lambda>p. \<not> freed (mem d) ! p) [0 ..< ?n]"
    by (intro filter_cong) (simp_all add: nth_append)
  finally show ?thesis by (simp add: live_freed)
qed

lemma take_16_issued: "take 16 (issued p a b c e g) = issued p a b c e g"
  by (simp add: issued_def)

lemma freed_nth: "p < length m \<Longrightarrow> freed m ! p = (m ! p = None)"
  by (simp add: freed_def)

lemma sample_run:
  assumes "stream d = []"
  shows "linearCUBLAS [[1, 2], [3, 4]] [[5, 7], [6, 8]] [1, - 1 :: int] handle d =
           (Inr [[20, 21], [44, 49]],
            d\<lparr>mem := mem d @ [None, None, None, None],
              calls := calls d @ issued (length (mem d)) 4 4 2 4 \<lparr>dim_x = 1, dim_y = 1, dim_z = 1\<rparr>\<rparr>)"
proof -
  have i: "is_matrix 2 2 [[1, 2], [3, 4 :: int]]" and w: "is_matrix 2 2 [[5, 7], [6, 8 :: int]]"
    by (simp_all add: is_matrix_def)
  have r: "biased [1, - 1] (product_rows [[1, 2], [3, 4]] [[5, 7], [6, 8 :: int]]) = [[20, 21], [44, 49]]"
    by (simp add: biased_def product_rows_def dotSIMD_def)
  have b: "2 \<le> length [1, - 1 :: int]" and pos: "0 < (2 :: nat)"
    and sz: "(2 :: nat) * 2 < 2 ^ 31" "(2 :: nat) \<le> 1048560" "(2 :: nat) + 15 < 2 ^ 31"
    by simp_all
  have e: "(2 :: nat) * 2 = 4" "length [1, - 1 :: int] = 2" "((2 :: nat) + 15) div 16 = 1"
    by simp_all
  show ?thesis
    using linearCUBLAS_run[OF i w b pos pos pos sz(1) sz(1) sz(1) sz(2) sz(3) assms, of handle]
    unfolding e r .
qed

lemma issued_split:
  "issued p a b c e g =
     take 9 (issued p a b c e g) @ [MemcpyAsyncD2H (Suc (Suc (Suc p))) e, StreamSynchronize, HostRead]
       @ drop 12 (issued p a b c e g)"
    "HostRead \<notin> set (take 9 (issued p a b c e g))"
    "StreamSynchronize \<notin> set (take 9 (issued p a b c e g))"
    "HostRead \<notin> set (drop 12 (issued p a b c e g))"
  by (simp_all add: issued_def)

lemma add_bias_host_error:
  assumes "add_bias_host bias batch_size output_dim out = Inl e"
  shows "e = OutOfBounds HostOutput \<or> e = OutOfBounds HostBias"
proof -
  from assms have "forM (int_range batch_size) (add_bias_row bias output_dim) out = Inl e"
    by (simp add: add_bias_host_def add_bias_rows_def)
  from forM_error[OF this] obtain i t where "add_bias_row bias output_dim i t = Inl e" by blast
  then have "forM (int_range output_dim) (add_bias_elem bias i) t = Inl e"
    by (simp add: add_bias_row_def)
  from forM_error[OF this] obtain j u where "add_bias_elem bias i j u = Inl e" by blast
  then show ?thesis by (auto simp: add_bias_elem_def split: if_splits)
qed

lemma linear_error:
  fixes input weights :: "('a::{semiring_0,linorder}) list list"
  assumes "linear input weights bias = Inl e"
  shows "matmul input weights = Inl e \<or> (matmul input weights = Inr [] \<and> e = OutOfBounds Output0)
       \<or> e = OutOfBounds HostOutput \<or> e = OutOfBounds HostBias"
proof (cases "matmul input weights")
  case (Inl e')
  then show ?thesis using assms by (simp add: linear_def linear_pre_activation_def)
next
  case (Inr out)
  show ?thesis
  proof (cases out)
    case Nil
    then show ?thesis using assms Inr by (simp add: linear_def linear_pre_activation_def)
  next
    case (Cons row0 rest)
    then have "add_bias_host bias (to_int32 (length out)) (to_int32 (length row0)) out = Inl e"
      using assms Inr by (simp add: linear_def linear_pre_activation_def Let_def split: sum.splits)
    from add_bias_host_error[OF this] show ?thesis by simp
  qed
qed

lemma matmul_error: "matmul A B = Inl e \<Longrightarrow> e = OutOfBounds MatmulOperand"
  by (simp add: matmul_def split: if_splits)

lemma mismatch_run:
  "linearCUBLAS [[1, 2, 3], [4, 5, 6]] [[1, 2], [3, 4]] [0, 0 :: int] 0 (idle_device (\<lambda>_. 0))
     = (Inl (OutOfBounds HostCopy),
        \<lparr>mem = [Some [0, 0, 0, 0, 0, 0], Some [0, 0, 0, 0, 0, 0], Some [0, 0], Some [0, 0, 0, 0]],
         stream = [CopyH2D 0 [1, 2, 3, 4, 5, 6]],
         calls = [MallocAsync 0 6, MallocAsync 1 6, MallocAsync 2 2, MallocAsync 3 4,
                  MemcpyAsyncH2D 0 6, MemcpyAsyncH2D 1 6],
         garbage = (\<lambda>_. 0)\<rparr>)"
proof -
  have c: "to_int32 2 = 2" "to_int32 3 = 3" "int32_ok 6" "int32_ok 4" "to_size 6 = 6" "to_size 4 = 4"
    by (simp_all add: to_int32_def int32_ok_def to_size_def)
  show ?thesis
    by (simp add: linearCUBLAS_def Let_def to_int32_def int32_ok_def to_size_def then_do_def
        vector_max_size_def cudaMallocAsync_def cudaMemcpyAsync_H2D_def idle_device_def upt_conv_Cons)
qed

lemma length_error_run:
  fixes b :: "'a::semiring_1"
  shows "linearCUBLAS ([] # replicate 2147483647 []) [] [b] handle (idle_device g)
     = (Inl LengthError,
        \<lparr>mem = [Some [], Some [], Some [b], Some []], stream = [],
         calls = [MallocAsync 0 0, MallocAsync 1 0, MallocAsync 2 1, MallocAsync 3 0,
                  MemcpyAsyncH2D 0 0, MemcpyAsyncH2D 1 0, MemcpyAsyncH2D 2 1, CublasSgemm,
                  LaunchAddBias \<lparr>dim_x = 0, dim_y = 4160749569, dim_z = 1\<rparr> threads,
                  MemcpyAsyncD2H 3 0, StreamSynchronize],
         garbage = g\<rparr>)"
  by (simp add: linearCUBLAS_def Let_def to_int32_def int32_ok_def to_size_def then_do_def
        vector_max_size_def cudaMallocAsync_def cudaMemcpyAsync_H2D_def idle_device_def
        cublasSgemm_def blocks_def ret_def fail_def launch_def cudaMemcpyAsync_D2H_def
        cudaStreamSynchronize_def exec_op_def buffer_def reassemble_def tdiv_def to_uint32_def threads_def
        cublasSgemm_buffers_def sgemm_params_ok_def launch_addBiasEfficient_def valid_launch_def)

lemma take_4_issued:
  "5 \<le> n \<Longrightarrow> take 4 (take n (issued p a b c e g))
     = [MallocAsync p a, MallocAsync (Suc p) b, MallocAsync (Suc (Suc p)) c, MallocAsync (Suc (Suc (Suc p))) e]"
  by (simp add: issued_def min_def)

lemma dotSIMD_commute:
  fixes a b :: "('a::comm_semiring_0) list"
  shows "dotSIMD a b = dotSIMD b a"
proof -
  have "map2 (*) a b = map2 (*) b a"
  proof (induction a arbitrary: b)
    case Nil
    then show ?case by simp
  next
    case (Cons x xs)
    then show ?case by (cases b) (simp_all add: mult.commute)
  qed
  then show ?thesis by (simp add: dotSIMD_def)
qed

lemma transpose_m_matrix:
  assumes "is_matrix K N W" "0 < K"
  shows "is_matrix N K (transpose_m W)" and "cols W = N"
proof -
  obtain r rest where w: "W = r # rest" using assms by (cases W) (auto simp: is_matrix_def)
  have len: "length W = K" and rows: "list_all (\<lambda>row. length row = N) W"
    using assms(1) by (simp_all add: is_matrix_def)
  show c: "cols W = N" using rows w by (simp add: cols_def)
  show "is_matrix N K (transpose_m W)"
    using len c length_transpose_m[of W]
    by (auto simp: is_matrix_def list_all_length transpose_m_nth)
qed

lemma product_rows_transpose:
  fixes input W :: "('a::comm_semiring_1) list list"
  shows "product_rows input (transpose_m W) = map (\<lambda>row. map (dotSIMD row) (transpose_m W)) input"
  unfolding product_rows_def
  by (intro map_cong refl) (rule dotSIMD_commute)

lemma relu_fixed: "relu v = v \<longleftrightarrow> 0 \<le> (v :: 'a::{zero,linorder})"
  by (auto simp: relu_def max_def)

lemma reluCUDA_batch_fixed:
  fixes out :: "('a::{zero,linorder}) list list"
  shows "reluCUDA_batch out = out \<longleftrightarrow> (\<forall>row \<in> set out. \<forall>v \<in> set row. 0 \<le> v)"
proof -
  have "map relu row = row \<longleftrightarrow> (\<forall>v \<in> set row. 0 \<le> v)" for row :: "'a list"
    using map_idI[of row relu] by (auto simp: map_eq_conv[of relu row id, simplified] relu_fixed)
  then show ?thesis
    unfolding reluCUDA_batch_def
    using map_eq_conv[of "map relu" out id] by simp
qed

section \<open>The claims\<close>



text \<open>
  C2, as the specification states it, fails on the source: with an input of shape
  \<open>2 \<times> 3\<close> and weights of shape \<open>2 \<times> 2\<close>, \<^verbatim>\<open>linearCUBLAS\<close> reports no \<open>InvalidDimension\<close>;
  it allocates its four device buffers and queues the copy of the input, and then
  \<^verbatim>\<open>cudaMemcpyAsync\<close> is asked to read six elements of a host vector that holds four.
  \<^verbatim>\<open>linear\<close> passes the same operands to \<^verbatim>\<open>matmul\<close> unchecked.
\<close>

theorem shape_mismatch_not_reported:
  "fst (linearCUBLAS [[1, 2, 3], [4, 5, 6]] [[1, 2], [3, 4]] [0, 0 :: int] 0 (idle_device (\<lambda>_. 0)))
     = Inl (OutOfBounds HostCopy)
   \<and> fst (linearCUBLAS [[1, 2, 3], [4, 5, 6]] [[1, 2], [3, 4]] [0, 0 :: int] 0 (idle_device (\<lambda>_. 0)))
     \<noteq> Inl InvalidDimension
   \<and> calls (snd (linearCUBLAS [[1, 2, 3], [4, 5, 6]] [[1, 2], [3, 4]] [0, 0 :: int] 0 (idle_device (\<lambda>_. 0))))
     = [MallocAsync 0 6, MallocAsync 1 6, MallocAsync 2 2, MallocAsync 3 4,
        MemcpyAsyncH2D 0 6, MemcpyAsyncH2D 1 6]
   \<and> linear [[1, 2, 3], [4, 5, 6]] [[1, 2], [3, 4]] [0, 0 :: int] \<noteq> Inl InvalidDimension"
  by (simp add: mismatch_run linear_def linear_pre_activation_def matmul_def is_matrix_def)

text \<open>
  C2, amended. Neither entry point validates operand shapes. \<^verbatim>\<open>linearCUBLAS\<close> never reports
  \<open>InvalidDimension\<close>, and for a non-empty batch whose size products fit in an \<^verbatim>\<open>int\<close> and
  whose flat vectors can be created the first four runtime calls it issues are the four
  device allocations, whether or not the inner dimensions agree. \<^verbatim>\<open>linear\<close> makes no check of its own: an error it returns is the
  error of \<^verbatim>\<open>matmul\<close> or an out-of-bounds read in \<^verbatim>\<open>linear\<close> itself.
\<close>

theorem entry_points_validate_no_shapes:
  fixes input weights :: "('a::{semiring_1,linorder}) list list"
  assumes "batchSize = to_int32 (length input)" and "inputDim = to_int32 (length (hd input))"
    and "outputDim = to_int32 (length weights)"
  shows "fst (linearCUBLAS input weights bias handle d) \<noteq> Inl InvalidDimension
       \<and> (input \<noteq> [] \<and> int32_ok (batchSize * inputDim) \<and> int32_ok (outputDim * inputDim)
            \<and> int32_ok (batchSize * outputDim)
            \<and> \<not> vector_max_size 4 < to_size (batchSize * inputDim)
            \<and> \<not> vector_max_size 4 < to_size (outputDim * inputDim)
            \<and> \<not> vector_max_size 4 < to_size (batchSize * outputDim) \<longrightarrow>
            take 4 (drop (length (calls d)) (calls (snd (linearCUBLAS input weights bias handle d))))
              = [MallocAsync (length (mem d)) (to_size (batchSize * inputDim)),
                 MallocAsync (Suc (length (mem d))) (to_size (outputDim * inputDim)),
                 MallocAsync (Suc (Suc (length (mem d)))) (length bias),
                 MallocAsync (Suc (Suc (Suc (length (mem d))))) (to_size (batchSize * outputDim))])
       \<and> (\<forall>e. linear input weights bias = Inl e \<longrightarrow>
              matmul input weights = Inl e \<or> e = OutOfBounds Output0
              \<or> e = OutOfBounds HostOutput \<or> e = OutOfBounds HostBias)"
proof (intro conjI impI allI)
  from linearCUBLAS_any[of input weights bias handle d]
  obtain r d' where run: "linearCUBLAS input weights bias handle d = (r, d')"
    and k: "case r of Inl err \<Rightarrow> err \<noteq> InvalidDimension | Inr out \<Rightarrow> True"
    by (fastforce split: sum.splits)
  show "fst (linearCUBLAS input weights bias handle d) \<noteq> Inl InvalidDimension"
    using k by (auto simp: run split: sum.splits)
next
  assume a: "input \<noteq> [] \<and> int32_ok (batchSize * inputDim) \<and> int32_ok (outputDim * inputDim)
            \<and> int32_ok (batchSize * outputDim)
            \<and> \<not> vector_max_size 4 < to_size (batchSize * inputDim)
            \<and> \<not> vector_max_size 4 < to_size (outputDim * inputDim)
            \<and> \<not> vector_max_size 4 < to_size (batchSize * outputDim)"
  then obtain row0 rest where inp: "input = row0 # rest" by (cases input) auto
  have iD: "inputDim = to_int32 (length row0)" using assms(2) inp by simp
  from linearCUBLAS_outcome[OF inp assms(1) iD assms(3) _ _ _ refl refl refl, of bias handle d] a
  obtain n g r d' where run: "linearCUBLAS input weights bias handle d = (r, d')"
    and c: "calls d' = calls d @ take n (issued (length (mem d)) (to_size (batchSize * inputDim))
          (to_size (outputDim * inputDim)) (length bias) (to_size (batchSize * outputDim)) g)"
    and n: "5 \<le> n"
    by blast
  show "take 4 (drop (length (calls d)) (calls (snd (linearCUBLAS input weights bias handle d))))
              = [MallocAsync (length (mem d)) (to_size (batchSize * inputDim)),
                 MallocAsync (Suc (length (mem d))) (to_size (outputDim * inputDim)),
                 MallocAsync (Suc (Suc (length (mem d)))) (length bias),
                 MallocAsync (Suc (Suc (Suc (length (mem d))))) (to_size (batchSize * outputDim))]"
    unfolding run snd_conv c using take_4_issued[OF n] by simp
next
  fix e assume "linear input weights bias = Inl e"
  from linear_error[OF this]
  show "matmul input weights = Inl e \<or> e = OutOfBounds Output0
              \<or> e = OutOfBounds HostOutput \<or> e = OutOfBounds HostBias"
    by blast
qed

theorem entry_points_validate_no_shapes_witness:
  "fst (linearCUBLAS [[1, 2], [4, 5]] [[1, 2, 3], [3, 4, 5]] [0, 0 :: int] 0 (idle_device (\<lambda>_. 0)))
     \<noteq> Inl InvalidDimension
   \<and> take 4 (calls (snd (linearCUBLAS [[1, 2], [4, 5]] [[1, 2, 3], [3, 4, 5]] [0, 0 :: int] 0
                          (idle_device (\<lambda>_. 0)))))
     = [MallocAsync 0 4, MallocAsync 1 4, MallocAsync 2 2, MallocAsync 3 4]"
proof -
  have c: "to_int32 (length [[1, 2], [4, 5 :: int]]) = 2" "to_int32 (length (hd [[1, 2], [4, 5 :: int]])) = 2"
    "to_int32 (length [[1, 2, 3], [3, 4, 5 :: int]]) = 2"
    by (simp_all add: to_int32_def)
  have ok: "int32_ok (2 * 2)" by (simp add: int32_ok_def)
  have sz: "to_size (2 * 2) = 4" by (simp add: to_size_def)
  have fit: "\<not> vector_max_size 4 < 4" by (simp add: vector_max_size_def)
  have d: "length (calls (idle_device (\<lambda>_. 0 :: int))) = 0" "length (mem (idle_device (\<lambda>_. 0 :: int))) = 0"
    "length [0, 0 :: int] = 2"
    by (simp_all add: idle_device_def)
  show ?thesis
    using entry_points_validate_no_shapes[OF c[symmetric], of "[0, 0]" 0 "idle_device (\<lambda>_. 0)"] ok fit
    unfolding sz d by simp
qed

text \<open>
  C3, as the specification states it, fails on the source: \<^verbatim>\<open>linear\<close> ends with the
  activation and \<^verbatim>\<open>linearCUBLAS\<close> does not. On the input \<open>[[1]]\<close>, the weight \<open>[[-1]]\<close> and
  the bias \<open>[0]\<close> the first returns \<open>[[0]]\<close> and the second \<open>[[-1]]\<close>.
\<close>

theorem strategies_differ_by_activation:
  "linear [[1]] [[- 1]] [0 :: int] = Inr [[0]]
   \<and> fst (linearCUBLAS [[1]] (transpose_m [[- 1]]) [0 :: int] 0 (idle_device (\<lambda>_. 0))) = Inr [[- 1]]
   \<and> linear [[1]] [[- 1]] [0 :: int]
       \<noteq> fst (linearCUBLAS [[1]] (transpose_m [[- 1]]) [0 :: int] 0 (idle_device (\<lambda>_. 0)))"
proof -
  have t: "transpose_m [[- 1 :: int]] = [[- 1]]" by (simp add: transpose_m_def)
  have m: "matmul [[1]] [[- 1 :: int]] = Inr [[- 1]]"
    by (simp add: matmul_def is_matrix_def cols_def t dotSIMD_def)
  have s: "is_matrix 1 1 [[- 1 :: int]]" by (simp add: is_matrix_def)
  have "linear_pre_activation [[1]] [[- 1]] [0 :: int] = Inr (biased [0] [[- 1]])"
    by (rule linear_pre_activation_on[OF m s]) simp_all
  then have l: "linear [[1]] [[- 1]] [0 :: int] = Inr [[0]]"
    by (simp add: linear_def biased_def reluCUDA_batch_def relu_def)
  have i: "is_matrix 1 1 [[1 :: int]]" by (simp add: is_matrix_def)
  have idle: "stream (idle_device (\<lambda>_. 0 :: int)) = []" by (simp add: idle_device_def)
  have "fst (linearCUBLAS [[1]] [[- 1]] [0 :: int] 0 (idle_device (\<lambda>_. 0)))
      = Inr (biased [0] (product_rows [[1]] [[- 1]]))"
    using linearCUBLAS_run[OF i s _ _ _ _ _ _ _ _ _ idle, of "[0]" 0] by simp
  then have c: "fst (linearCUBLAS [[1]] (transpose_m [[- 1]]) [0 :: int] 0 (idle_device (\<lambda>_. 0))) = Inr [[- 1]]"
    by (simp add: t biased_def product_rows_def dotSIMD_def)
  show ?thesis using l c by simp
qed

text \<open>
  C3, amended. For operands of compatible shapes, within the bounds of \<^verbatim>\<open>int\<close> and of a
  launch and with nothing queued on the stream, \<^verbatim>\<open>linearCUBLAS\<close> on the transposed weights
  returns \<open>input \<cdot> weights + bias\<close>, the matrix that \<^verbatim>\<open>linear\<close> holds before its activation,
  and \<^verbatim>\<open>linear\<close> returns the ReLU of that matrix. The two entry points return the same
  matrix exactly when no entry of \<open>input \<cdot> weights + bias\<close> is negative.
\<close>

theorem linear_is_relu_of_linearCUBLAS:
  fixes input weights :: "('a::linordered_idom) list list"
  assumes "is_matrix M K input" and "is_matrix K N weights" and "length bias = N"
    and "0 < M" and "0 < K" and "0 < N"
    and "M * K < 2 ^ 31" and "N * K < 2 ^ 31" and "M * N < 2 ^ 31"
    and "M \<le> 1048560" and "N + 15 < 2 ^ 31" and "stream d = []"
  shows "\<exists>out. fst (linearCUBLAS input (transpose_m weights) bias handle d) = Inr out
             \<and> is_matrix M N out
             \<and> linear_pre_activation input weights bias = Inr out
             \<and> linear input weights bias = Inr (reluCUDA_batch out)
             \<and> (linear input weights bias = fst (linearCUBLAS input (transpose_m weights) bias handle d)
                  \<longleftrightarrow> (\<forall>row \<in> set out. \<forall>v \<in> set row. 0 \<le> v))"
proof -
  let ?T = "transpose_m weights"
  let ?P = "map (\<lambda>row. map (dotSIMD row) ?T) input"
  let ?out = "biased bias ?P"
  have t: "is_matrix N K ?T" and c: "cols weights = N"
    using transpose_m_matrix[OF assms(2,5)] by simp_all
  have b: "N \<le> length bias" using assms(3) by simp
  have small: "M < 2 ^ 31" "N < 2 ^ 31"
    using mult_less_factor[OF assms(9,4,6)] by simp_all
  have len: "length input = M" "length weights = K"
    using assms(1,2) by (simp_all add: is_matrix_def)
  have run: "linearCUBLAS input ?T bias handle d =
           (Inr (biased bias (product_rows input ?T)),
            d\<lparr>mem := mem d @ [None, None, None, None],
              calls := calls d @ issued (length (mem d)) (M * K) (N * K) (length bias) (M * N)
                \<lparr>dim_x = (N + 15) div 16, dim_y = (M + 15) div 16, dim_z = 1\<rparr>\<rparr>)"
    by (rule linearCUBLAS_run[OF assms(1) t b assms(4,5,6,7,8,9,10,11,12)])
  have cu: "fst (linearCUBLAS input ?T bias handle d) = Inr ?out"
    unfolding run product_rows_transpose by simp
  have i': "is_matrix M (length weights) input" using assms(1) len by simp
  have w': "is_matrix (length weights) (cols weights) weights" using assms(2) len c by simp
  have mm: "matmul input weights = Inr ?P" using matmul_Inr[OF i' w'] .
  have shape: "is_matrix M N ?P" using matmul_shape[OF mm] len c by simp
  have pre: "linear_pre_activation input weights bias = Inr ?out"
    using linear_pre_activation_on[OF mm shape assms(4) small b] .
  have oshape: "is_matrix M N ?out" using biased_matrix[OF shape b] .
  have lin: "linear input weights bias = Inr (reluCUDA_batch ?out)"
    by (simp add: linear_def pre)
  have same: "linear input weights bias = fst (linearCUBLAS input ?T bias handle d)
                  \<longleftrightarrow> (\<forall>row \<in> set ?out. \<forall>v \<in> set row. 0 \<le> v)"
    unfolding lin cu using reluCUDA_batch_fixed[of ?out] by simp
  show ?thesis
    by (intro exI[of _ ?out] conjI cu oshape pre lin same)
qed

theorem linear_is_relu_of_linearCUBLAS_witness:
  "\<exists>out. fst (linearCUBLAS [[1, 2], [3, 4]] (transpose_m [[5, 6], [7, - 8]]) [1, - 1 :: int] 0
                (idle_device (\<lambda>_. 0))) = Inr out
        \<and> is_matrix 2 2 out
        \<and> linear_pre_activation [[1, 2], [3, 4]] [[5, 6], [7, - 8]] [1, - 1 :: int] = Inr out
        \<and> linear [[1, 2], [3, 4]] [[5, 6], [7, - 8]] [1, - 1 :: int] = Inr (reluCUDA_batch out)
        \<and> (linear [[1, 2], [3, 4]] [[5, 6], [7, - 8]] [1, - 1 :: int]
              = fst (linearCUBLAS [[1, 2], [3, 4]] (transpose_m [[5, 6], [7, - 8]]) [1, - 1 :: int] 0
                      (idle_device (\<lambda>_. 0)))
            \<longleftrightarrow> (\<forall>row \<in> set out. \<forall>v \<in> set row. 0 \<le> v))"
proof -
  have i: "is_matrix 2 2 [[1, 2], [3, 4 :: int]]" and w: "is_matrix 2 2 [[5, 6], [7, - 8 :: int]]"
    and b: "length [1, - 1 :: int] = 2"
    by (simp_all add: is_matrix_def)
  have idle: "stream (idle_device (\<lambda>_. 0 :: int)) = []" by (simp add: idle_device_def)
  have n: "0 < (2 :: nat)" "(2 :: nat) * 2 < 2 ^ 31" "(2 :: nat) \<le> 1048560" "(2 :: nat) + 15 < 2 ^ 31"
    by simp_all
  show ?thesis
    by (rule linear_is_relu_of_linearCUBLAS[OF i w b n(1) n(1) n(1) n(2) n(2) n(2) n(3) n(4) idle])
qed



text \<open>
  C5. For operands of fitting shapes, \<open>A\<close> of shape \<open>M \<times> K\<close> and \<open>B\<close> of shape \<open>K \<times> N\<close>,
  \<^verbatim>\<open>matmul\<close> returns the triple-loop reference product, an \<open>M \<times> N\<close> matrix; every entry is
  therefore within the relative tolerance \<open>10\<^sup>-\<^sup>3\<close> of the reference entry. On
  \<open>[[1, 2], [3, 4]]\<close> and \<open>[[5, 6], [7, 8]]\<close> it returns \<open>[[19, 22], [43, 50]]\<close>.
\<close>

theorem matmul_equals_reference_product:
  fixes A B :: "real list list"
  assumes "is_matrix M (length B) A" and "is_matrix (length B) (cols B) B"
  shows "matmul A B = Inr (matmul_reference A B)
       \<and> is_matrix M (cols B) (matmul_reference A B)
       \<and> (\<forall>i < M. \<forall>j < cols B.
             matmul_reference A B ! i ! j = foldl (\<lambda>acc k. acc + A ! i ! k * B ! k ! j) 0 [0 ..< length B])
       \<and> (\<forall>C. matmul A B = Inr C \<longrightarrow>
             (\<forall>i < M. \<forall>j < cols B.
                \<bar>C ! i ! j - matmul_reference A B ! i ! j\<bar> \<le> 1 / 1000 * \<bar>matmul_reference A B ! i ! j\<bar>))
       \<and> matmul [[1, 2], [3, 4]] [[5, 6], [7, 8 :: real]] = Inr [[19, 22], [43, 50]]"
proof -
  have la: "length A = M" using assms(1) by (simp add: is_matrix_def)
  have eq: "matmul A B = Inr (matmul_reference A B)"
    using matmul_is_reference[OF assms] .
  have m: "is_matrix M (cols B) (matmul_reference A B)"
    using matmul_reference_matrix[of A B] la by simp
  have entry: "\<forall>i < M. \<forall>j < cols B.
             matmul_reference A B ! i ! j = foldl (\<lambda>acc k. acc + A ! i ! k * B ! k ! j) 0 [0 ..< length B]"
    using la by (simp add: matmul_reference_def)
  have tol: "\<forall>C. matmul A B = Inr C \<longrightarrow>
             (\<forall>i < M. \<forall>j < cols B.
                \<bar>C ! i ! j - matmul_reference A B ! i ! j\<bar> \<le> 1 / 1000 * \<bar>matmul_reference A B ! i ! j\<bar>)"
    using eq by simp
  have ex: "matmul [[1, 2], [3, 4]] [[5, 6], [7, 8 :: real]] = Inr [[19, 22], [43, 50]]"
    by (simp add: matmul_def is_matrix_def cols_def transpose_m_def dotSIMD_def)
  show ?thesis by (intro conjI eq m entry tol ex)
qed

theorem matmul_equals_reference_product_witness:
  "matmul [[1, 0, 2], [0, 3, 1]] [[1, 2], [3, 4], [5, 6 :: real]] = Inr [[11, 14], [14, 18]]
   \<and> matmul_reference [[1, 0, 2], [0, 3, 1]] [[1, 2], [3, 4], [5, 6 :: real]] = [[11, 14], [14, 18]]"
proof -
  have a: "is_matrix 2 (length [[1, 2], [3, 4], [5, 6 :: real]]) [[1, 0, 2], [0, 3, 1]]"
    by (simp add: is_matrix_def)
  have b: "is_matrix (length [[1, 2], [3, 4], [5, 6 :: real]]) (cols [[1, 2], [3, 4], [5, 6 :: real]])
             [[1, 2], [3, 4], [5, 6 :: real]]"
    by (simp add: is_matrix_def cols_def)
  have r: "matmul_reference [[1, 0, 2], [0, 3, 1]] [[1, 2], [3, 4], [5, 6 :: real]] = [[11, 14], [14, 18]]"
    by (simp add: matmul_reference_def cols_def upt_conv_Cons)
  show ?thesis
    using matmul_equals_reference_product[OF a b] r by simp
qed

text \<open>
  C6. \<^verbatim>\<open>softmax\<close> turns every row with at least one entry into a probability
  distribution: the output has the length of the input, no entry is negative, and the
  entries sum to 1, so within \<open>10\<^sup>-\<^sup>5\<close> of it, whatever the magnitude of the inputs. On
  \<open>[1, 2, 3]\<close> the result is \<open>[0.0900, 0.2447, 0.6652]\<close> to four decimal places.
\<close>

theorem softmax_probability_distribution:
  "(input \<noteq> [] \<longrightarrow>
      (\<exists>p. softmax input = Inr p \<and> length p = length input \<and> (\<forall>v \<in> set p. 0 \<le> v)
           \<and> sum_list p = 1 \<and> \<bar>sum_list p - 1\<bar> \<le> 1 / 100000))
   \<and> (\<exists>p0 p1 p2. softmax [1, 2, 3] = Inr [p0, p1, p2] \<and>
         \<bar>p0 - 900 / 10000\<bar> < 5 / 100000 \<and> \<bar>p1 - 2447 / 10000\<bar> < 5 / 100000 \<and>
         \<bar>p2 - 6652 / 10000\<bar> < 5 / 100000)"
proof (intro conjI impI)
  assume "input \<noteq> []"
  from softmax_distribution[OF this] obtain p where
    p: "softmax input = Inr p" "length p = length input" "\<forall>v \<in> set p. 0 < v" "sum_list p = 1"
    by blast
  have "\<forall>v \<in> set p. 0 \<le> v" using p(3) by (simp add: less_imp_le)
  then show "\<exists>p. softmax input = Inr p \<and> length p = length input \<and> (\<forall>v \<in> set p. 0 \<le> v)
           \<and> sum_list p = 1 \<and> \<bar>sum_list p - 1\<bar> \<le> 1 / 100000"
    using p by (intro exI[of _ p]) simp
next
  show "\<exists>p0 p1 p2. softmax [1, 2, 3] = Inr [p0, p1, p2] \<and>
         \<bar>p0 - 900 / 10000\<bar> < 5 / 100000 \<and> \<bar>p1 - 2447 / 10000\<bar> < 5 / 100000 \<and>
         \<bar>p2 - 6652 / 10000\<bar> < 5 / 100000"
    by (rule softmax_123)
qed

theorem softmax_probability_distribution_witness:
  "\<exists>p. softmax [1000000, - 1000000, 0] = Inr p \<and> length p = length [1000000, - 1000000, 0 :: real]
       \<and> (\<forall>v \<in> set p. 0 \<le> v) \<and> sum_list p = 1 \<and> \<bar>sum_list p - 1\<bar> \<le> 1 / 100000"
proof -
  have ne: "[1000000, - 1000000, 0 :: real] \<noteq> []" by simp
  from softmax_probability_distribution[of "[1000000, - 1000000, 0]"] ne show ?thesis by blast
qed

text \<open>
  C7, as the specification states it, fails on the source: \<^verbatim>\<open>linearCUBLAS\<close> has no cleanup on
  an exit by exception. With an input of \<open>2\<^sup>3\<^sup>1\<close> rows without entries, no weights and a bias
  of one element, \<^verbatim>\<open>int batchSize = input.size()\<close> is \<open>-2\<^sup>3\<^sup>1\<close> and the three sizes are 0. The
  four buffers are allocated, the copies, the product and the kernel are issued and the
  stream is waited for; then \<^verbatim>\<open>std::vector<std::vector<float>> output(batchSize)\<close> asks for
  \<open>2\<^sup>6\<^sup>4 - 2\<^sup>3\<^sup>1\<close> rows and throws \<^verbatim>\<open>std::length_error\<close>. The call ends there: no
  \<^verbatim>\<open>cudaFreeAsync\<close> is issued and the four buffers, the bias among them, stay allocated on
  a device that held none before.
\<close>

theorem linearCUBLAS_leaks_on_length_error:
  "linearCUBLAS ([] # replicate 2147483647 []) [] [1 :: int] 0 (idle_device (\<lambda>_. 0))
     = (Inl LengthError,
        \<lparr>mem = [Some [], Some [], Some [1], Some []], stream = [],
         calls = [MallocAsync 0 0, MallocAsync 1 0, MallocAsync 2 1, MallocAsync 3 0,
                  MemcpyAsyncH2D 0 0, MemcpyAsyncH2D 1 0, MemcpyAsyncH2D 2 1, CublasSgemm,
                  LaunchAddBias \<lparr>dim_x = 0, dim_y = 4160749569, dim_z = 1\<rparr> threads,
                  MemcpyAsyncD2H 3 0, StreamSynchronize],
         garbage = (\<lambda>_. 0)\<rparr>)
   \<and> live (idle_device (\<lambda>_. 0 :: int)) = []
   \<and> live (snd (linearCUBLAS ([] # replicate 2147483647 []) [] [1 :: int] 0 (idle_device (\<lambda>_. 0))))
     = [0, 1, 2, 3]"
proof -
  have l0: "live (idle_device (\<lambda>_. 0 :: int)) = []"
    by (simp add: live_def idle_device_def)
  have l1: "live \<lparr>mem = [Some [], Some [], Some [1 :: int], Some []], stream = [],
         calls = [MallocAsync 0 0, MallocAsync 1 0, MallocAsync 2 1, MallocAsync 3 0,
                  MemcpyAsyncH2D 0 0, MemcpyAsyncH2D 1 0, MemcpyAsyncH2D 2 1, CublasSgemm,
                  LaunchAddBias \<lparr>dim_x = 0, dim_y = 4160749569, dim_z = 1\<rparr> threads,
                  MemcpyAsyncD2H 3 0, StreamSynchronize],
         garbage = (\<lambda>_. 0)\<rparr> = [0, 1, 2, 3]"
    by (simp add: live_def upt_conv_Cons)
  show ?thesis
    unfolding length_error_run snd_conv by (intro conjI refl l0 l1)
qed

text \<open>
  C7, amended. Every device buffer that a call of \<^verbatim>\<open>linearCUBLAS\<close> allocates is freed before
  the call returns its result. Whenever the call returns a matrix, the device holds exactly
  the buffers it held before, the four buffers the call added are freed, and the calls it
  issued are the sixteen of \<open>issued\<close>, four \<^verbatim>\<open>cudaMallocAsync\<close> first and the four matching
  \<^verbatim>\<open>cudaFreeAsync\<close> last. The source looks at no status code, so a failure that the
  runtime reports skips no \<^verbatim>\<open>cudaFreeAsync\<close>; the frees are skipped only when the call is
  left by an exception.
\<close>

theorem linearCUBLAS_frees_its_buffers:
  fixes input weights :: "('a::semiring_1) list list"
  assumes "linearCUBLAS input weights bias handle d = (Inr out, d')"
  shows "live d' = live d
       \<and> length (mem d') = length (mem d) + 4
       \<and> (\<forall>p. length (mem d) \<le> p \<and> p < length (mem d') \<longrightarrow> mem d' ! p = None)
       \<and> (\<exists>a b c e g. calls d' = calls d @ issued (length (mem d)) a b c e g)"
proof -
  from linearCUBLAS_any[of input weights bias handle d] assms
  obtain a b e g where c: "calls d' = calls d @ take 16 (issued (length (mem d)) a b (length bias) e g)"
    and f: "freed (mem d') = freed (mem d) @ [True, True, True, True]"
    by auto
  have l: "live d' = live d" using live_after_free[OF f] .
  have len: "length (mem d') = length (mem d) + 4"
    using arg_cong[OF f, of length] by (simp add: freed_def)
  have none: "\<forall>p. length (mem d) \<le> p \<and> p < length (mem d') \<longrightarrow> mem d' ! p = None"
  proof (intro allI impI)
    fix p assume p: "length (mem d) \<le> p \<and> p < length (mem d')"
    then have "freed (mem d') ! p = [True, True, True, True] ! (p - length (mem d))"
      unfolding f by (simp add: nth_append freed_def)
    moreover have "p - length (mem d) < length [True, True, True, True]"
      using p len by (simp only: list.size) linarith
    then have "[True, True, True, True] ! (p - length (mem d)) \<in> set [True, True, True, True]"
      by (rule nth_mem)
    ultimately have "freed (mem d') ! p" by simp
    then show "mem d' ! p = None" using p by (simp add: freed_nth)
  qed
  have calls: "\<exists>a b c e g. calls d' = calls d @ issued (length (mem d)) a b c e g"
    using c unfolding take_16_issued by blast
  show ?thesis by (intro conjI l len none calls)
qed

theorem linearCUBLAS_frees_its_buffers_witness:
  "linearCUBLAS [[1, 2], [3, 4]] [[5, 7], [6, 8]] [1, - 1 :: int] 0
      \<lparr>mem = [Some [9], None], stream = [], calls = [], garbage = (\<lambda>_. 0)\<rparr>
     = (Inr [[20, 21], [44, 49]],
        \<lparr>mem = [Some [9], None, None, None, None, None], stream = [],
         calls = issued 2 4 4 2 4 \<lparr>dim_x = 1, dim_y = 1, dim_z = 1\<rparr>, garbage = (\<lambda>_. 0)\<rparr>)
   \<and> live \<lparr>mem = [Some [9], None, None, None, None, None], stream = [],
         calls = issued 2 4 4 2 4 \<lparr>dim_x = 1, dim_y = 1, dim_z = 1\<rparr>, garbage = (\<lambda>_. 0 :: int)\<rparr>
       = live \<lparr>mem = [Some [9], None], stream = [], calls = [], garbage = (\<lambda>_. 0 :: int)\<rparr>"
proof -
  have run: "linearCUBLAS [[1, 2], [3, 4]] [[5, 7], [6, 8]] [1, - 1 :: int] 0
      \<lparr>mem = [Some [9], None], stream = [], calls = [], garbage = (\<lambda>_. 0)\<rparr>
     = (Inr [[20, 21], [44, 49]],
        \<lparr>mem = [Some [9], None, None, None, None, None], stream = [],
         calls = issued 2 4 4 2 4 \<lparr>dim_x = 1, dim_y = 1, dim_z = 1\<rparr>, garbage = (\<lambda>_. 0)\<rparr>)"
  proof -
    have "length (mem \<lparr>mem = [Some [9 :: int], None], stream = [], calls = [], garbage = (\<lambda>_. 0)\<rparr>) = 2"
      by simp
    then show ?thesis
      using sample_run[of "\<lparr>mem = [Some [9], None], stream = [], calls = [], garbage = (\<lambda>_. 0)\<rparr>" 0]
      by (simp del: length_Cons list.size)
  qed
  from linearCUBLAS_frees_its_buffers[OF run] run show ?thesis by blast
qed

text \<open>
  C8. \<^verbatim>\<open>linearCUBLAS\<close> never reads device results on the host before it has waited for the
  stream. In every run, whatever its outcome, each read of the host buffer comes after a
  \<^verbatim>\<open>cudaStreamSynchronize\<close> that itself comes after the copy to the host was issued; and in
  a run that returns a matrix, the calls contain the copy to the host, the
  \<^verbatim>\<open>cudaStreamSynchronize\<close> and the read of \<^verbatim>\<open>flatOutput\<close> in this order, next to each
  other, with no read and no wait before them and no read after them.
\<close>

theorem linearCUBLAS_waits_before_reading:
  fixes input weights :: "('a::semiring_1) list list"
  shows "\<exists>cs. calls (snd (linearCUBLAS input weights bias handle d)) = calls d @ cs
           \<and> host_reads_synced NoCopy cs
           \<and> (\<forall>out. fst (linearCUBLAS input weights bias handle d) = Inr out \<longrightarrow>
                 (\<exists>before p n after.
                    cs = before @ [MemcpyAsyncD2H p n, StreamSynchronize, HostRead] @ after
                  \<and> HostRead \<notin> set before \<and> StreamSynchronize \<notin> set before
                  \<and> HostRead \<notin> set after))"
proof -
  from linearCUBLAS_any[of input weights bias handle d]
  obtain n a b e g r d' where run: "linearCUBLAS input weights bias handle d = (r, d')"
    and c: "calls d' = calls d @ take n (issued (length (mem d)) a b (length bias) e g)"
    and k: "case r of Inl err \<Rightarrow> True | Inr out \<Rightarrow> n = 16"
    by (fastforce split: sum.splits)
  let ?I = "issued (length (mem d)) a b (length bias) e g"
  have s: "host_reads_synced NoCopy (take n ?I)"
    using host_reads_synced_take[OF host_reads_synced_issued] .
  have ok: "\<forall>out. r = Inr out \<longrightarrow>
                 (\<exists>before p m after.
                    take n ?I = before @ [MemcpyAsyncD2H p m, StreamSynchronize, HostRead] @ after
                  \<and> HostRead \<notin> set before \<and> StreamSynchronize \<notin> set before
                  \<and> HostRead \<notin> set after)"
  proof (intro allI impI)
    fix out assume "r = Inr out"
    then have "n = 16" using k by simp
    then have t: "take n ?I = ?I" by (simp add: take_16_issued)
    show "\<exists>before p m after.
                    take n ?I = before @ [MemcpyAsyncD2H p m, StreamSynchronize, HostRead] @ after
                  \<and> HostRead \<notin> set before \<and> StreamSynchronize \<notin> set before
                  \<and> HostRead \<notin> set after"
      unfolding t
      by (intro exI conjI)
         (rule issued_split(1), rule issued_split(2), rule issued_split(3), rule issued_split(4))
  qed
  show ?thesis
    unfolding run fst_conv snd_conv c
    by (intro exI[of _ "take n ?I"] conjI refl s ok)
qed

theorem linearCUBLAS_waits_before_reading_witness:
  "\<exists>cs. calls (snd (linearCUBLAS [[1, 2], [3, 4]] [[5, 7], [6, 8]] [1, - 1 :: int] 0 (idle_device (\<lambda>_. 0))))
          = calls (idle_device (\<lambda>_. 0 :: int)) @ cs
       \<and> host_reads_synced NoCopy cs
       \<and> fst (linearCUBLAS [[1, 2], [3, 4]] [[5, 7], [6, 8]] [1, - 1 :: int] 0 (idle_device (\<lambda>_. 0)))
          = Inr [[20, 21], [44, 49]]
       \<and> (\<exists>before p n after.
              cs = before @ [MemcpyAsyncD2H p n, StreamSynchronize, HostRead] @ after
            \<and> HostRead \<notin> set before \<and> StreamSynchronize \<notin> set before \<and> HostRead \<notin> set after)"
proof -
  have "stream (idle_device (\<lambda>_. 0 :: int)) = []" by (simp add: idle_device_def)
  from sample_run[OF this, of 0]
  have r: "fst (linearCUBLAS [[1, 2], [3, 4]] [[5, 7], [6, 8]] [1, - 1 :: int] 0 (idle_device (\<lambda>_. 0)))
          = Inr [[20, 21], [44, 49]]"
    by simp
  from linearCUBLAS_waits_before_reading[of "[[1, 2], [3, 4]]" "[[5, 7], [6, 8]]" "[1, - 1 :: int]" 0
      "idle_device (\<lambda>_. 0)"] r
  show ?thesis by auto
qed

text \<open>
  C9. Both entry points need a batch with at least one row. \<^verbatim>\<open>linearCUBLAS\<close> reads
  \<^verbatim>\<open>input[0]\<close>: with a non-empty input that read is never out of bounds, and with an
  empty input it is, before anything is done on the device. \<^verbatim>\<open>linear\<close> reads
  \<^verbatim>\<open>output[0]\<close> of the product: when \<^verbatim>\<open>matmul\<close> returns at least one row the read is never
  out of bounds, when it returns no row it is, and for a non-empty input \<^verbatim>\<open>matmul\<close>
  returns at least one row.
\<close>

theorem entry_points_need_a_row:
  fixes input weights :: "('a::{semiring_1,linorder}) list list"
  shows "(input \<noteq> [] \<longrightarrow> fst (linearCUBLAS input weights bias handle d) \<noteq> Inl (OutOfBounds Input0))
       \<and> linearCUBLAS [] weights bias handle d = (Inl (OutOfBounds Input0), d)
       \<and> (matmul input weights = Inr out \<and> out \<noteq> [] \<longrightarrow> linear input weights bias \<noteq> Inl (OutOfBounds Output0))
       \<and> (matmul input weights = Inr [] \<longrightarrow> linear input weights bias = Inl (OutOfBounds Output0))
       \<and> (input \<noteq> [] \<and> matmul input weights = Inr out \<longrightarrow> out \<noteq> [])"
proof (intro conjI impI)
  assume ne: "input \<noteq> []"
  from linearCUBLAS_any[of input weights bias handle d]
  obtain r d' where run: "linearCUBLAS input weights bias handle d = (r, d')"
    and k: "case r of Inl err \<Rightarrow> input \<noteq> [] \<longrightarrow> err \<noteq> OutOfBounds Input0 | Inr out \<Rightarrow> True"
    by (fastforce split: sum.splits)
  show "fst (linearCUBLAS input weights bias handle d) \<noteq> Inl (OutOfBounds Input0)"
    using k ne by (auto simp: run split: sum.splits)
next
  show "linearCUBLAS [] weights bias handle d = (Inl (OutOfBounds Input0), d)"
    by (rule linearCUBLAS_empty)
next
  assume a: "matmul input weights = Inr out \<and> out \<noteq> []"
  show "linear input weights bias \<noteq> Inl (OutOfBounds Output0)"
  proof
    assume "linear input weights bias = Inl (OutOfBounds Output0)"
    from linear_error[OF this] a show False by auto
  qed
next
  assume "matmul input weights = Inr []"
  then show "linear input weights bias = Inl (OutOfBounds Output0)"
    by (simp add: linear_def linear_pre_activation_def)
next
  assume a: "input \<noteq> [] \<and> matmul input weights = Inr out"
  then have "length out = length input" using matmul_shape[of input weights out] by (simp add: is_matrix_def)
  then show "out \<noteq> []" using a by auto
qed

theorem entry_points_need_a_row_witness:
  "fst (linearCUBLAS [[1, 2], [3, 4]] [[5, 7], [6, 8]] [1, - 1 :: int] 0 (idle_device (\<lambda>_. 0)))
      \<noteq> Inl (OutOfBounds Input0)
   \<and> linearCUBLAS [] [[5, 7], [6, 8]] [1, - 1 :: int] 0 (idle_device (\<lambda>_. 0))
      = (Inl (OutOfBounds Input0), idle_device (\<lambda>_. 0))
   \<and> matmul [[1, 2], [3, 4]] [[5, 6], [7, 8 :: int]] = Inr [[19, 22], [43, 50]]
   \<and> linear [[1, 2], [3, 4]] [[5, 6], [7, 8 :: int]] [1, - 1] \<noteq> Inl (OutOfBounds Output0)
   \<and> matmul [] [[5, 6], [7, 8 :: int]] = Inr []
   \<and> linear [] [[5, 6], [7, 8 :: int]] [1, - 1] = Inl (OutOfBounds Output0)"
proof -
  have m: "matmul [[1, 2], [3, 4]] [[5, 6], [7, 8 :: int]] = Inr [[19, 22], [43, 50]]"
    and e: "matmul [] [[5, 6], [7, 8 :: int]] = Inr []"
    by (simp_all add: matmul_def is_matrix_def cols_def transpose_m_def dotSIMD_def)
  have a: "fst (linearCUBLAS [[1, 2], [3, 4]] [[5, 7], [6, 8]] [1, - 1 :: int] 0 (idle_device (\<lambda>_. 0)))
      \<noteq> Inl (OutOfBounds Input0)"
    and b: "linearCUBLAS [] [[5, 7], [6, 8]] [1, - 1 :: int] 0 (idle_device (\<lambda>_. 0))
      = (Inl (OutOfBounds Input0), idle_device (\<lambda>_. 0))"
    using entry_points_need_a_row[of "[[1, 2], [3, 4]]" "[[5, 7], [6, 8]]" "[1, - 1 :: int]" 0
        "idle_device (\<lambda>_. 0)" "[]"]
    by simp_all
  have c: "linear [[1, 2], [3, 4]] [[5, 6], [7, 8 :: int]] [1, - 1] \<noteq> Inl (OutOfBounds Output0)"
    using entry_points_need_a_row[of "[[1, 2], [3, 4]]" "[[5, 6], [7, 8]]" "[1, - 1 :: int]" 0
        "idle_device (\<lambda>_. 0)" "[[19, 22], [43, 50]]"] m
    by simp
  have d: "linear [] [[5, 6], [7, 8 :: int]] [1, - 1] = Inl (OutOfBounds Output0)"
    using entry_points_need_a_row[of "[]" "[[5, 6], [7, 8]]" "[1, - 1 :: int]" 0
        "idle_device (\<lambda>_. 0)" "[]"] e
    by simp
  show ?thesis by (intro conjI a b m c e d)
qed

text \<open>
  C10. \<^verbatim>\<open>addBiasEfficient\<close> changes nothing outside the first \<open>batchSize \<cdot> outputDim\<close>
  elements of the output buffer: a thread whose row is not below \<open>batchSize\<close> or whose
  column is not below \<open>outputDim\<close> returns the buffer as it found it, and after any launch
  that completes, the buffer has its length and every element from index
  \<open>batchSize \<cdot> outputDim\<close> on is the one it was.
\<close>

theorem addBiasEfficient_frame_outside_region:
  "(batchSize \<le> to_int32 (dim_y blockIdx * dim_y blockDim + dim_y threadIdx)
      \<or> outputDim \<le> to_int32 (dim_x blockIdx * dim_x blockDim + dim_x threadIdx)
     \<longrightarrow> addBiasEfficient blockIdx blockDim threadIdx bias batchSize outputDim out = Inr out)
   \<and> (launch_addBiasEfficient gridDim blockDim bias batchSize outputDim out = Inr out'
     \<longrightarrow> length out' = length out \<and> (\<forall>k. batchSize * outputDim \<le> int k \<longrightarrow> out' ! k = out ! k))"
proof (intro conjI impI)
  assume "batchSize \<le> to_int32 (dim_y blockIdx * dim_y blockDim + dim_y threadIdx)
      \<or> outputDim \<le> to_int32 (dim_x blockIdx * dim_x blockDim + dim_x threadIdx)"
  then show "addBiasEfficient blockIdx blockDim threadIdx bias batchSize outputDim out = Inr out"
    by (auto simp: addBiasEfficient_def Let_def)
next
  assume run: "launch_addBiasEfficient gridDim blockDim bias batchSize outputDim out = Inr out'"
  from launch_frame[OF run] show "length out' = length out" by simp
  from launch_frame[OF run] show "\<forall>k. batchSize * outputDim \<le> int k \<longrightarrow> out' ! k = out ! k" by simp
qed

theorem addBiasEfficient_frame_outside_region_witness:
  "addBiasEfficient \<lparr>dim_x = 0, dim_y = 0, dim_z = 0\<rparr> threads \<lparr>dim_x = 5, dim_y = 0, dim_z = 0\<rparr>
       [1, - 1] 1 2 [2, 2, 9 :: int] = Inr [2, 2, 9]
   \<and> launch_addBiasEfficient \<lparr>dim_x = 1, dim_y = 1, dim_z = 1\<rparr> threads [1, - 1] 1 2 [2, 2, 9 :: int]
        = Inr [3, 1, 9]
   \<and> length [3, 1, 9 :: int] = length [2, 2, 9 :: int]
   \<and> [3, 1, 9 :: int] ! 2 = [2, 2, 9] ! 2"
proof -
  have "launch_addBiasEfficient \<lparr>dim_x = 1, dim_y = 1, dim_z = 1\<rparr> threads [1, - 1] (int 1) (int 2) [2, 2, 9 :: int]
           = Inr (map (\<lambda>k. if k < 1 * 2 then [2, 2, 9 :: int] ! k + [1, - 1] ! (k mod 2) else [2, 2, 9] ! k)
                  [0 ..< length [2, 2, 9 :: int]])"
    by (rule launch_addBiasEfficient_correct) (simp_all add: valid_launch_def threads_def)
  then have run: "launch_addBiasEfficient \<lparr>dim_x = 1, dim_y = 1, dim_z = 1\<rparr> threads [1, - 1] 1 2 [2, 2, 9 :: int]
        = Inr [3, 1, 9]"
    by (simp add: upt_conv_Cons)
  have col: "(2 :: int) \<le> to_int32 (dim_x \<lparr>dim_x = 0, dim_y = 0, dim_z = 0\<rparr> * dim_x threads
                 + dim_x \<lparr>dim_x = 5, dim_y = 0, dim_z = 0\<rparr>)"
    by (simp add: to_int32_def threads_def)
  show ?thesis
    using addBiasEfficient_frame_outside_region[of 1 "\<lparr>dim_x = 0, dim_y = 0, dim_z = 0\<rparr>" threads
        "\<lparr>dim_x = 5, dim_y = 0, dim_z = 0\<rparr>" 2 "[1, - 1]" "[2, 2, 9 :: int]"
        "\<lparr>dim_x = 1, dim_y = 1, dim_z = 1\<rparr>" "[3, 1, 9]"] run col
    by simp
qed

end
